theory Spec2Isabelle
  imports Main "HOL-Library.Word"
begin

section \<open>JavaScript strings\<close>

text \<open>
  A JavaScript string is a sequence of UTF-16 code units. The regular expressions of
  \<open>parseAnalysisText\<close> carry no \<open>u\<close> flag, so they too work code unit by code unit.
\<close>

type_synonym cu = "16 word"
type_synonym jsstr = "cu list"

text \<open>ASCII text of the source is written as an Isabelle string and widened to code units.\<close>

definition asc :: "string \<Rightarrow> jsstr" where
  "asc s = map (\<lambda>c. of_nat (of_char c)) s"

text \<open>
  WhiteSpace and LineTerminator of ECMAScript: the characters that \<open>\s\<close> matches and that
  \<open>String.prototype.trim\<close> strips (TAB, LF, VT, FF, CR, SP, NBSP, U+1680, U+2000..U+200A,
  U+2028, U+2029, U+202F, U+205F, U+3000, U+FEFF).
\<close>

definition is_space :: "cu \<Rightarrow> bool" where
  "is_space c \<longleftrightarrow>
     c = 0x9 \<or> c = 0xA \<or> c = 0xB \<or> c = 0xC \<or> c = 0xD \<or> c = 0x20 \<or> c = 0xA0 \<or>
     c = 0x1680 \<or> (0x2000 \<le> c \<and> c \<le> 0x200A) \<or> c = 0x2028 \<or> c = 0x2029 \<or>
     c = 0x202F \<or> c = 0x205F \<or> c = 0x3000 \<or> c = 0xFEFF"

text \<open>LineTerminator: LF, CR, U+2028, U+2029; what \<open>.\<close> refuses without the \<open>s\<close> flag.\<close>

definition is_line_terminator :: "cu \<Rightarrow> bool" where
  "is_line_terminator c \<longleftrightarrow> c = 0xA \<or> c = 0xD \<or> c = 0x2028 \<or> c = 0x2029"

definition LF :: cu where
  "LF = 0xA"

text \<open>\<open>String.prototype.trim\<close>: strip white space and line terminators from both ends.\<close>

definition trim :: "jsstr \<Rightarrow> jsstr" where
  "trim s = rev (dropWhile is_space (rev (dropWhile is_space s)))"

text \<open>
  \<open>String.prototype.replace(pattern, replacement)\<close> with a string pattern: the first
  occurrence of the pattern is replaced, the rest of the text is kept. (The replacement
  used by the source is the empty string, which has no \<open>$\<close> patterns to expand.)
\<close>

fun is_prefix :: "jsstr \<Rightarrow> jsstr \<Rightarrow> bool" where
  "is_prefix [] s = True"
| "is_prefix (p # ps) [] = False"
| "is_prefix (p # ps) (c # cs) = (p = c \<and> is_prefix ps cs)"

fun replace :: "jsstr \<Rightarrow> jsstr \<Rightarrow> jsstr \<Rightarrow> jsstr" where
  "replace [] pat rep = (if pat = [] then rep else [])"
| "replace (c # cs) pat rep =
     (if is_prefix pat (c # cs) then rep @ drop (length pat) (c # cs)
      else c # replace cs pat rep)"

text \<open>\<open>String.prototype.includes\<close>: the needle occurs somewhere in the text.\<close>

fun str_includes :: "jsstr \<Rightarrow> jsstr \<Rightarrow> bool" where
  "str_includes [] pat = (pat = [])"
| "str_includes (c # cs) pat = (is_prefix pat (c # cs) \<or> str_includes cs pat)"

text \<open>
  \<open>String.prototype.split(sep)\<close> for a separator of one code unit: the list of the
  pieces between the separators, never empty.
\<close>

fun split :: "jsstr \<Rightarrow> cu \<Rightarrow> jsstr list" where
  "split [] sep = [[]]"
| "split (c # cs) sep =
     (if c = sep then [] # split cs sep
      else (case split cs sep of [] \<Rightarrow> [[c]] | p # ps \<Rightarrow> (c # p) # ps))"

text \<open>Reading an array element: out of range gives \<open>undefined\<close>, here \<open>None\<close>.\<close>

fun at_index :: "'a list \<Rightarrow> nat \<Rightarrow> 'a option" where
  "at_index [] i = None"
| "at_index (x # xs) 0 = Some x"
| "at_index (x # xs) (Suc i) = at_index xs i"

section \<open>Regular expressions\<close>

text \<open>
  The constructs that the two patterns of \<open>parseAnalysisText\<close> use: pattern characters,
  \<open>.\<close>, \<open>\s\<close>, sequence, alternation, greedy and lazy \<open>*\<close>, and a capturing group
  (the patterns have exactly one, group 1).
\<close>

datatype regex =
    Eps
  | Chr cu
  | Dot
  | Space
  | Seq regex regex
  | Alt regex regex
  | Star bool regex
  | Group regex

record flags =
  ignoreCase :: bool
  dotAll :: bool

text \<open>
  Canonicalize of ECMAScript without the \<open>u\<close> flag maps a code unit to its upper case,
  and never maps a code unit from 128 on to one below 128. Here it is written out for
  the ASCII letters; every other code unit is left as it is. For the characters of the
  two patterns (ASCII letters, the space, the colon, the line feed and five Hangul
  syllables, which have no case) this decides the same matches as the full table: no
  other code unit is mapped onto one of them.
\<close>

definition canonicalize :: "cu \<Rightarrow> cu" where
  "canonicalize c = (if 0x61 \<le> c \<and> c \<le> 0x7A then c - 0x20 else c)"

definition char_matches :: "flags \<Rightarrow> cu \<Rightarrow> cu \<Rightarrow> bool" where
  "char_matches f p c =
     (if ignoreCase f then canonicalize p = canonicalize c else p = c)"

text \<open>
  The state of a match: the input that is left, and what group 1 captured so far.
  The matcher returns every way to match, in the order in which a backtracking
  matcher tries them: the head of the list is the match that the engine reports.
  An iteration of \<open>*\<close> that consumes nothing is rejected, as in RepeatMatcher.
\<close>

type_synonym mstate = "jsstr \<times> jsstr option"

function matcher :: "flags \<Rightarrow> regex \<Rightarrow> mstate \<Rightarrow> mstate list" where
  "matcher f Eps st = [st]"
| "matcher f (Chr p) (s, cap) =
     (case s of [] \<Rightarrow> [] | c # cs \<Rightarrow> if char_matches f p c then [(cs, cap)] else [])"
| "matcher f Dot (s, cap) =
     (case s of [] \<Rightarrow> []
      | c # cs \<Rightarrow> if dotAll f \<or> \<not> is_line_terminator c then [(cs, cap)] else [])"
| "matcher f Space (s, cap) =
     (case s of [] \<Rightarrow> [] | c # cs \<Rightarrow> if is_space c then [(cs, cap)] else [])"
| "matcher f (Seq a b) st = concat (map (matcher f b) (matcher f a st))"
| "matcher f (Alt a b) st = matcher f a st @ matcher f b st"
| "matcher f (Star greedy a) (s, cap) =
     (let more = concat (map (matcher f (Star greedy a))
                   (filter (\<lambda>st'. length (fst st') < length s) (matcher f a (s, cap))))
      in if greedy then more @ [(s, cap)] else (s, cap) # more)"
| "matcher f (Group a) (s, cap) =
     map (\<lambda>st'. (fst st', Some (take (length s - length (fst st')) s)))
       (matcher f a (s, cap))"
  by pat_completeness auto
termination
  by (relation "inv_image (less_than <*lex*> less_than)
                  (\<lambda>(f, r, st). (size r, length (fst st)))") auto

text \<open>A literal run of pattern characters.\<close>

fun lit :: "jsstr \<Rightarrow> regex" where
  "lit [] = Eps"
| "lit (c # cs) = Seq (Chr c) (lit cs)"

text \<open>
  The result of \<open>String.prototype.match\<close> with a pattern without the \<open>g\<close> flag:
  the index of the match, the matched text \<open>m[0]\<close> and group 1, \<open>m[1]\<close>
  (\<open>undefined\<close> when the group took no part).
\<close>

record match_result =
  index :: nat
  whole :: jsstr
  group1 :: "jsstr option"

text \<open>The start positions are tried from left to right, the end of the text included.\<close>

fun exec_from :: "flags \<Rightarrow> regex \<Rightarrow> nat \<Rightarrow> jsstr \<Rightarrow> match_result option" where
  "exec_from f r i [] =
     (case matcher f r ([], None) of
        [] \<Rightarrow> None
      | st # _ \<Rightarrow> Some \<lparr>index = i, whole = [], group1 = snd st\<rparr>)"
| "exec_from f r i (c # cs) =
     (case matcher f r (c # cs, None) of
        [] \<Rightarrow> exec_from f r (Suc i) cs
      | st # _ \<Rightarrow>
          Some \<lparr>index = i,
                whole = take (length (c # cs) - length (fst st)) (c # cs),
                group1 = snd st\<rparr>)"

definition match :: "jsstr \<Rightarrow> flags \<Rightarrow> regex \<Rightarrow> match_result option" where
  "match text f r = exec_from f r 0 text"

section \<open>parseAnalysisText\<close>

datatype js_error = TypeError | Error jsstr

record analysis =
  a_title :: jsstr
  a_description :: jsstr

text \<open>\<open>/(?:Reason|...):\s*(.*)/is\<close>, the second alternative being U+C774 U+C720.\<close>

definition reason_marker_ko :: jsstr where
  "reason_marker_ko = [0xC774, 0xC720]"

definition title_marker_ko :: jsstr where
  "title_marker_ko = [0xC9C1, 0xC5C5, 0xBA85]"

definition reason_flags :: flags where
  "reason_flags = \<lparr>ignoreCase = True, dotAll = True\<rparr>"

definition reason_re :: regex where
  "reason_re =
     Seq (Alt (lit (asc ''Reason'')) (lit reason_marker_ko))
       (Seq (Chr 0x3A) (Seq (Star True Space) (Group (Star True Dot))))"

text \<open>\<open>/(?:Job Title|...):\s*(.*?)\n/i\<close>, the second alternative being U+C9C1 U+C5C5 U+BA85.\<close>

definition title_flags :: flags where
  "title_flags = \<lparr>ignoreCase = True, dotAll = False\<rparr>"

definition title_re :: regex where
  "title_re =
     Seq (Alt (lit (asc ''Job Title'')) (lit title_marker_ko))
       (Seq (Chr 0x3A) (Seq (Star True Space) (Seq (Group (Star False Dot)) (Chr LF))))"

text \<open>The fallback title, U+BD84 U+C11D U+0020 U+ACB0 U+ACFC.\<close>

definition fallback_title :: jsstr where
  "fallback_title = [0xBD84, 0xC11D, 0x20, 0xACB0, 0xACFC]"

text \<open>
  \<open>m[1].trim()\<close>: calling \<open>trim\<close> on \<open>undefined\<close> throws a TypeError.
\<close>

definition group1_trim :: "match_result \<Rightarrow> js_error + jsstr" where
  "group1_trim m = (case group1 m of None \<Rightarrow> Inl TypeError | Some g \<Rightarrow> Inr (trim g))"

text \<open>A prompt is used when it is truthy: present and not the empty string.\<close>

definition truthy :: "jsstr option \<Rightarrow> bool" where
  "truthy p = (case p of None \<Rightarrow> False | Some s \<Rightarrow> s \<noteq> [])"

definition parseAnalysisText :: "jsstr \<Rightarrow> jsstr option \<Rightarrow> js_error + analysis" where
  "parseAnalysisText text userPrompt =
     (if truthy userPrompt then
        (case (case match text reason_flags reason_re of
                 Some m \<Rightarrow> group1_trim m | None \<Rightarrow> Inr text) of
           Inl e \<Rightarrow> Inl e
         | Inr description \<Rightarrow>
             Inr \<lparr>a_title = (case userPrompt of Some p \<Rightarrow> p | None \<Rightarrow> []),
                  a_description = description\<rparr>)
      else
        (let titleMatch = match text title_flags title_re;
             reasonMatch = match text reason_flags reason_re
         in case (case titleMatch of Some m \<Rightarrow> group1_trim m | None \<Rightarrow> Inr fallback_title) of
              Inl e \<Rightarrow> Inl e
            | Inr title \<Rightarrow>
               (case (case reasonMatch of Some m \<Rightarrow> group1_trim m | None \<Rightarrow> Inr text) of
                  Inl e \<Rightarrow> Inl e
                | Inr description0 \<Rightarrow>
                    Inr \<lparr>a_title = title,
                         a_description =
                           (case (reasonMatch, titleMatch) of
                              (None, Some tm) \<Rightarrow> trim (replace text (whole tm) [])
                            | _ \<Rightarrow> description0)\<rparr>)))"

section \<open>The request\<close>

text \<open>
  The instruction of \<open>generateImageAndAnalysis\<close> is one of two template literals. Each
  is written here in pieces, cut where the prompt is spliced in (between double quotes
  twice, between single quotes once) and around the markers \<open>...:\<close> that the template
  asks the model to use, so that the markers of \<open>parseAnalysisText\<close> show. The pieces
  of the template for a prompt:
\<close>

definition prompt_template_1 :: jsstr where
  "prompt_template_1 =
     asc ''You are a creative AI image editor. Your task is to modify '' @
     asc ''the provided user image to represent a ''"

definition prompt_template_2 :: jsstr where
  "prompt_template_2 =
     asc '' and then describe your changes.'' @
     [0xA, 0xA] @
     asc ''**CRITICAL INSTRUCTIONS:**'' @
     [0xA] @
     asc ''1.  **GENERATE IMAGE FIRST:** You MUST generate a new image '' @
     asc ''by editing the original to reflect the ''"

definition prompt_template_3 :: jsstr where
  "prompt_template_3 =
     asc '' career. This is your primary task. For example, for a '' @
     [0x27] @
     asc ''developer'' @
     [0x27] @
     asc '', you could add a laptop with code.'' @
     [0xA] @
     asc ''2.  **GENERATE TEXT SECOND:** After generating the image, '' @
     asc ''you MUST provide a description in Korean using this exact '' @
     asc ''format:'' @
     [0xA] @
     asc ''    '' @
     [0x22]"

definition prompt_template_4 :: jsstr where
  "prompt_template_4 =
     asc '' ['' @
     [0xB2F9, 0xC2E0, 0xC774] @
     asc '' '' @
     [0xC0DD, 0xC131, 0xD55C] @
     asc '' '' @
     [0xC774, 0xBBF8, 0xC9C0, 0xC5D0, 0xC11C] @
     asc '' ''"

definition prompt_template_5 :: jsstr where
  "prompt_template_5 =
     asc '' '' @
     [0xC9C1, 0xC5C5, 0xC744] @
     asc '' '' @
     [0xD45C, 0xD604, 0xD558, 0xAE30] @
     asc '' '' @
     [0xC704, 0xD574] @
     asc '' '' @
     [0xBB34, 0xC5C7, 0xC744] @
     asc '' '' @
     [0xBCC0, 0xACBD, 0xD588, 0xB294, 0xC9C0] @
     asc '' '' @
     [0xC124, 0xBA85, 0xD558, 0xC138, 0xC694] @
     asc ''.]'' @
     [0x22, 0xA, 0xA] @
     asc ''**MANDATORY OUTPUT:** Your final response MUST contain BOTH '' @
     asc ''the generated image AND the text description. Do not '' @
     asc ''respond with only text.''"

text \<open>The pieces of the template without a prompt:\<close>

definition no_prompt_template_1 :: jsstr where
  "no_prompt_template_1 =
     asc ''You are a creative AI image editor. Your task is to choose '' @
     asc ''a suitable career for the person in the provided image, '' @
     asc ''modify the image to represent that career, and then '' @
     asc ''describe your changes.'' @
     [0xA, 0xA] @
     asc ''**CRITICAL INSTRUCTIONS:**'' @
     [0xA] @
     asc ''1.  **GENERATE IMAGE FIRST:** You MUST generate a new '' @
     asc ''image. First, analyze the person and choose a fitting '' @
     asc ''career. Then, edit the original image to reflect that '' @
     asc ''career. This is your primary task. For example, for a '' @
     [0x27] @
     asc ''chef'' @
     [0x27] @
     asc '', you could add a kitchen background.'' @
     [0xA] @
     asc ''2.  **GENERATE TEXT SECOND:** After generating the image, '' @
     asc ''you MUST provide a description in Korean using this exact '' @
     asc ''format:'' @
     [0xA] @
     asc ''    '' @
     [0x22]"

definition no_prompt_template_2 :: jsstr where
  "no_prompt_template_2 =
     asc '' ['' @
     [0xB2F9, 0xC2E0, 0xC774] @
     asc '' '' @
     [0xC120, 0xD0DD, 0xD55C] @
     asc '' '' @
     [0xC9C1, 0xC5C5] @
     asc '']'' @
     [0x22, 0xA] @
     asc ''    '' @
     [0x22]"

definition no_prompt_template_3 :: jsstr where
  "no_prompt_template_3 =
     asc '' ['' @
     [0xC65C] @
     asc '' '' @
     [0xC774] @
     asc '' '' @
     [0xC9C1, 0xC5C5, 0xC744] @
     asc '' '' @
     [0xC120, 0xD0DD, 0xD588, 0xACE0] @
     asc '', '' @
     [0xB2F9, 0xC2E0, 0xC774] @
     asc '' '' @
     [0xC0DD, 0xC131, 0xD55C] @
     asc '' '' @
     [0xC774, 0xBBF8, 0xC9C0, 0xC5D0, 0xC11C] @
     asc '' '' @
     [0xBB34, 0xC5C7, 0xC744] @
     asc '' '' @
     [0xBCC0, 0xACBD, 0xD588, 0xB294, 0xC9C0] @
     asc '' '' @
     [0xC124, 0xBA85, 0xD558, 0xC138, 0xC694] @
     asc ''.]'' @
     [0x22, 0xA, 0xA] @
     asc ''**MANDATORY OUTPUT:** Your final response MUST contain BOTH '' @
     asc ''the generated image AND the text description. Do not '' @
     asc ''respond with only text.''"

text \<open>A part of the request: \<open>{inlineData: {data, mimeType}}\<close> or \<open>{text}\<close>.\<close>

datatype request_part =
    InlineData "jsstr option" jsstr
  | Text jsstr

definition prompt_template :: "jsstr \<Rightarrow> jsstr" where
  "prompt_template prompt =
     prompt_template_1 @ [0x22] @ prompt @ [0x22] @
     prompt_template_2 @ [0x22] @ prompt @ [0x22] @
     prompt_template_3 @ reason_marker_ko @ [0x3A] @
     prompt_template_4 @ [0x27] @ prompt @ [0x27] @
     prompt_template_5"

definition no_prompt_template :: jsstr where
  "no_prompt_template =
     no_prompt_template_1 @ title_marker_ko @ [0x3A] @
     no_prompt_template_2 @ reason_marker_ko @ [0x3A] @
     no_prompt_template_3"

definition textPrompt :: "jsstr \<Rightarrow> jsstr" where
  "textPrompt prompt =
     (if prompt \<noteq> [] then prompt_template prompt else no_prompt_template)"

text \<open>
  The request-building stage of \<open>generateImageAndAnalysis\<close>: the \<open>parts\<close> handed to
  \<open>generateContent\<close>. \<open>imageBase64.split(',')[1]\<close> is \<open>undefined\<close> when the
  text has no comma.
\<close>

definition composeRequest :: "jsstr \<Rightarrow> jsstr \<Rightarrow> jsstr \<Rightarrow> request_part list" where
  "composeRequest imageBase64 mimeType prompt =
     [InlineData (at_index (split imageBase64 0x2C) 1) mimeType, Text (textPrompt prompt)]"

section \<open>The response\<close>

text \<open>
  Modelled from the spec: the response types of the API client library, which the
  repository imports and does not declare. A content part carries image data (encoded
  bytes and a media type) or text; the code reads both fields of every part, so both are
  optional here. A candidate has its content parts, a finish reason and safety ratings,
  each rating with a category and a blocked flag; the response has its candidates and
  an optional top-level block reason. Every field that the code reads through \<open>?.\<close> or
  tests for presence is optional.
\<close>

record blob =
  data :: jsstr
  mimeType :: jsstr

record part =
  inlineData :: "blob option"
  part_text :: "jsstr option"

record content =
  parts :: "part list option"

record safety_rating =
  category :: jsstr
  blocked :: bool

record candidate =
  content :: "content option"
  finishReason :: "jsstr option"
  safetyRatings :: "safety_rating list option"

record prompt_feedback =
  blockReason :: "jsstr option"

record response =
  candidates :: "candidate list option"
  promptFeedback :: "prompt_feedback option"

record GenerationResult =
  image :: jsstr
  title :: jsstr
  description :: jsstr

text \<open>The messages of the errors that the response handling throws.\<close>

definition msg_blocked_generic :: jsstr where
  "msg_blocked_generic =
     asc ''The request was blocked, likely for safety reasons. Please '' @
     asc ''try a different image or prompt.''"

definition msg_blocked_pre :: jsstr where
  "msg_blocked_pre =
     asc ''Request blocked: ''"

definition msg_blocked_post :: jsstr where
  "msg_blocked_post =
     asc ''. Please adjust your input.''"

definition msg_safety :: jsstr where
  "msg_safety =
     asc ''Generation failed due to safety concerns. The model cannot '' @
     asc ''process this request. Please try a different image or '' @
     asc ''prompt.''"

definition msg_policy_pre :: jsstr where
  "msg_policy_pre =
     asc ''Generation failed due to the safety policy for '' @
     [0x27]"

definition msg_policy_post :: jsstr where
  "msg_policy_post =
     [0x27] @
     asc ''. Please try a different image or prompt.''"

definition msg_stopped_pre :: jsstr where
  "msg_stopped_pre =
     asc ''Generation stopped unexpectedly: ''"

definition msg_stopped_post :: jsstr where
  "msg_stopped_post =
     asc ''. Please try a different image or prompt.''"

definition msg_neither :: jsstr where
  "msg_neither =
     asc ''API did not return both an image and text. The model may '' @
     asc ''have been unable to fulfill the request.''"

definition msg_image_no_text :: jsstr where
  "msg_image_no_text =
     asc ''The API returned an image but no descriptive text. The '' @
     asc ''model might have failed to generate the analysis part.''"

definition msg_text_no_image :: jsstr where
  "msg_text_no_image =
     asc ''The API returned an analysis but no image. The model might '' @
     asc ''have failed to generate the image part.''"

definition msg_try_again :: jsstr where
  "msg_try_again =
     asc '' Please try again with a different image or prompt.''"

text \<open>\<open>`data:${part.inlineData.mimeType};base64,${part.inlineData.data}`\<close>\<close>

definition data_uri :: "blob \<Rightarrow> jsstr" where
  "data_uri b = asc ''data:'' @ mimeType b @ asc '';base64,'' @ data b"

text \<open>
  The loop over the parts: a part with \<open>inlineData\<close> sets the image, any other part
  with a truthy \<open>text\<close> sets the text; later parts overwrite earlier ones.
\<close>

fun scan_parts :: "part list \<Rightarrow> jsstr option \<times> jsstr option \<Rightarrow> jsstr option \<times> jsstr option" where
  "scan_parts [] acc = acc"
| "scan_parts (p # ps) (generatedImage, analysisText) =
     scan_parts ps
       (case inlineData p of
          Some b \<Rightarrow> (Some (data_uri b), analysisText)
        | None \<Rightarrow>
            (if truthy (part_text p) then (generatedImage, part_text p)
             else (generatedImage, analysisText)))"

text \<open>The message when the response has no candidate.\<close>

definition blocked_message :: "response \<Rightarrow> jsstr" where
  "blocked_message response =
     (case (case promptFeedback response of None \<Rightarrow> None | Some pf \<Rightarrow> blockReason pf) of
        Some r \<Rightarrow>
          (if r \<noteq> [] then msg_blocked_pre @ r @ msg_blocked_post
           else msg_blocked_generic)
      | None \<Rightarrow> msg_blocked_generic)"

text \<open>The message when the image or the text is missing, in the order of the source.\<close>

definition incomplete_message :: "candidate \<Rightarrow> jsstr option \<Rightarrow> jsstr option \<Rightarrow> jsstr" where
  "incomplete_message c generatedImage analysisText =
     (if finishReason c = Some (asc ''SAFETY'') then msg_safety
      else
        (case (case safetyRatings c of None \<Rightarrow> None | Some rs \<Rightarrow> find blocked rs) of
           Some blockedRating \<Rightarrow>
             msg_policy_pre @ category blockedRating @ msg_policy_post
         | None \<Rightarrow>
             (if truthy (finishReason c) \<and> finishReason c \<noteq> Some (asc ''STOP'') then
                msg_stopped_pre @ (case finishReason c of Some r \<Rightarrow> r | None \<Rightarrow> []) @
                msg_stopped_post
              else
                (if truthy generatedImage \<and> \<not> truthy analysisText then msg_image_no_text
                 else if \<not> truthy generatedImage \<and> truthy analysisText then msg_text_no_image
                 else msg_neither) @ msg_try_again)))"

text \<open>The image and the text that the loop extracts from the first candidate.\<close>

definition extract_parts :: "candidate \<Rightarrow> jsstr option \<times> jsstr option" where
  "extract_parts c =
     (case (case content c of None \<Rightarrow> None | Some ct \<Rightarrow> parts ct) of
        None \<Rightarrow> (None, None)
      | Some ps \<Rightarrow> scan_parts ps (None, None))"

text \<open>
  The response-handling stage of \<open>generateImageAndAnalysis\<close>. The \<open>catch\<close> block
  rethrows every \<open>Error\<close>, so each error below reaches the caller as it is. The calls of
  \<open>console.error\<close> do not change the result and are left out.
\<close>

definition interpret_response :: "response \<Rightarrow> jsstr \<Rightarrow> js_error + GenerationResult" where
  "interpret_response response prompt =
     (case (case candidates response of None \<Rightarrow> [] | Some cs \<Rightarrow> cs) of
        [] \<Rightarrow> Inl (Error (blocked_message response))
      | c # _ \<Rightarrow>
          (let (generatedImage, analysisText) = extract_parts c
           in if \<not> truthy generatedImage \<or> \<not> truthy analysisText then
                Inl (Error (incomplete_message c generatedImage analysisText))
              else
                (case parseAnalysisText
                        (case analysisText of Some t \<Rightarrow> t | None \<Rightarrow> []) (Some prompt) of
                   Inl e \<Rightarrow> Inl e
                 | Inr a \<Rightarrow>
                     Inr \<lparr>image = (case generatedImage of Some i \<Rightarrow> i | None \<Rightarrow> []),
                          title = a_title a, description = a_description a\<rparr>)))"

section \<open>The two patterns read as scans of the text\<close>

text \<open>
  What the patterns of \<open>parseAnalysisText\<close> find is described a second time, without
  the matcher: as a search from left to right for a marker. The theorems below show
  that the matcher computes exactly this.
\<close>

text \<open>The text starts with the literal, letter case ignored.\<close>

fun ci_prefix :: "jsstr \<Rightarrow> jsstr \<Rightarrow> bool" where
  "ci_prefix [] s = True"
| "ci_prefix (p # ps) [] = False"
| "ci_prefix (p # ps) (c # cs) = (canonicalize p = canonicalize c \<and> ci_prefix ps cs)"

definition reason_markers :: "jsstr list" where
  "reason_markers = [asc ''Reason:'', reason_marker_ko @ [0x3A]]"

definition title_markers :: "jsstr list" where
  "title_markers = [asc ''Job Title:'', title_marker_ko @ [0x3A]]"

text \<open>The marker that the text starts with, as it is spelled there, and what follows it.\<close>

definition marker_here :: "jsstr list \<Rightarrow> jsstr \<Rightarrow> (jsstr \<times> jsstr) option" where
  "marker_here ms s =
     (case find (\<lambda>m. ci_prefix m s) ms of
        None \<Rightarrow> None
      | Some m \<Rightarrow> Some (take (length m) s, drop (length m) s))"

text \<open>What follows the first occurrence of a marker in the text.\<close>

fun after_first_marker :: "jsstr list \<Rightarrow> jsstr \<Rightarrow> jsstr option" where
  "after_first_marker ms [] = map_option snd (marker_here ms [])"
| "after_first_marker ms (c # cs) =
     (case marker_here ms (c # cs) of
        Some (mk, r) \<Rightarrow> Some r
      | None \<Rightarrow> after_first_marker ms cs)"

text \<open>
  The rest of a line: the run of characters up to the first line terminator, which has
  to be a line feed, and the text after that line feed.
\<close>

fun line_here :: "jsstr \<Rightarrow> (jsstr \<times> jsstr) option" where
  "line_here [] = None"
| "line_here (c # cs) =
     (if c = LF then Some ([], cs)
      else if is_line_terminator c then None
      else (case line_here cs of None \<Rightarrow> None | Some (cap, post) \<Rightarrow> Some (c # cap, post)))"

text \<open>
  White space, then the rest of a line. As much white space as possible is skipped;
  a line feed counts as white space, so when no line can be read after all the white
  space, the skipped white space is given back up to its last line feed.
\<close>

fun title_line_here :: "jsstr \<Rightarrow> (jsstr \<times> jsstr \<times> jsstr) option" where
  "title_line_here [] = None"
| "title_line_here (c # cs) =
     (if is_space c then
        (case title_line_here cs of
           Some (ws, cap, post) \<Rightarrow> Some (c # ws, cap, post)
         | None \<Rightarrow> (case line_here (c # cs) of None \<Rightarrow> None | Some (cap, post) \<Rightarrow> Some ([], cap, post)))
      else (case line_here (c # cs) of None \<Rightarrow> None | Some (cap, post) \<Rightarrow> Some ([], cap, post)))"

text \<open>A title line that starts here: marker, white space, captured text, what follows.\<close>

definition title_here :: "jsstr \<Rightarrow> (jsstr \<times> jsstr \<times> jsstr \<times> jsstr) option" where
  "title_here s =
     (case marker_here title_markers s of
        None \<Rightarrow> None
      | Some (mk, r) \<Rightarrow>
          (case title_line_here r of
             None \<Rightarrow> None
           | Some (ws, cap, post) \<Rightarrow> Some (mk, ws, cap, post)))"

text \<open>The first title line of the text, and the text in front of it.\<close>

fun title_scan :: "jsstr \<Rightarrow> (jsstr \<times> jsstr \<times> jsstr \<times> jsstr \<times> jsstr) option" where
  "title_scan [] = None"
| "title_scan (c # cs) =
     (case title_here (c # cs) of
        Some (mk, ws, cap, post) \<Rightarrow> Some ([], mk, ws, cap, post)
      | None \<Rightarrow>
          (case title_scan cs of
             None \<Rightarrow> None
           | Some (pre, mk, ws, cap, post) \<Rightarrow> Some (c # pre, mk, ws, cap, post)))"

text \<open>
  The suffixes of the text that a \<open>*\<close> over a character class leaves, in the order in
  which a greedy and a lazy \<open>*\<close> try them.
\<close>

fun greedy_suffixes :: "(cu \<Rightarrow> bool) \<Rightarrow> jsstr \<Rightarrow> jsstr list" where
  "greedy_suffixes P [] = [[]]"
| "greedy_suffixes P (c # cs) = (if P c then greedy_suffixes P cs @ [c # cs] else [c # cs])"

fun lazy_suffixes :: "(cu \<Rightarrow> bool) \<Rightarrow> jsstr \<Rightarrow> jsstr list" where
  "lazy_suffixes P [] = [[]]"
| "lazy_suffixes P (c # cs) = (c # cs) # (if P c then lazy_suffixes P cs else [])"

definition dot_class :: "flags \<Rightarrow> cu \<Rightarrow> bool" where
  "dot_class f c \<longleftrightarrow> dotAll f \<or> \<not> is_line_terminator c"

text \<open>
  A piece of the text spells a marker when the two agree up to the case of their
  letters.
\<close>

definition spells :: "jsstr \<Rightarrow> jsstr \<Rightarrow> bool" where
  "spells mk m \<longleftrightarrow> map canonicalize m = map canonicalize mk"


section \<open>The matcher on the two patterns\<close>

text \<open>The equation of \<open>*\<close> is unfolded by hand, one iteration at a time.\<close>

declare matcher.simps(7) [simp del]

subsection \<open>Literals and character classes\<close>

lemma matcher_lit:
  "ignoreCase f \<Longrightarrow> matcher f (lit p) (s, cap) = (if ci_prefix p s then [(drop (length p) s, cap)] else [])"
proof (induction p arbitrary: s)
  case Nil
  then show ?case by simp
next
  case (Cons a p)
  show ?case
  proof (cases s)
    case Nil
    then show ?thesis by simp
  next
    case (Cons c cs)
    with Cons.IH [OF Cons.prems, of cs] Cons.prems show ?thesis
      by (simp add: char_matches_def)
  qed
qed

lemma matcher_star_greedy:
  assumes atom: "\<And>c cs. matcher f a (c # cs, cap) = (if P c then [(cs, cap)] else [])"
    and nil: "matcher f a ([], cap) = []"
  shows "matcher f (Star True a) (s, cap) = map (\<lambda>t. (t, cap)) (greedy_suffixes P s)"
proof (induction s)
  case Nil
  show ?case by (simp add: matcher.simps(7) nil)
next
  case (Cons c cs)
  show ?case
    by (subst matcher.simps(7)) (simp add: atom Cons.IH)
qed

lemma matcher_star_lazy:
  assumes atom: "\<And>c cs. matcher f a (c # cs, cap) = (if P c then [(cs, cap)] else [])"
    and nil: "matcher f a ([], cap) = []"
  shows "matcher f (Star False a) (s, cap) = map (\<lambda>t. (t, cap)) (lazy_suffixes P s)"
proof (induction s)
  case Nil
  show ?case by (simp add: matcher.simps(7) nil)
next
  case (Cons c cs)
  show ?case
    by (subst matcher.simps(7)) (simp add: atom Cons.IH)
qed

lemma matcher_star_space:
  "matcher f (Star True Space) (s, cap) = map (\<lambda>t. (t, cap)) (greedy_suffixes is_space s)"
  by (rule matcher_star_greedy) simp_all

lemma matcher_star_dot_greedy:
  "matcher f (Star True Dot) (s, cap) = map (\<lambda>t. (t, cap)) (greedy_suffixes (dot_class f) s)"
  by (rule matcher_star_greedy) (simp_all add: dot_class_def)

lemma matcher_star_dot_lazy:
  "matcher f (Star False Dot) (s, cap) = map (\<lambda>t. (t, cap)) (lazy_suffixes (dot_class f) s)"
  by (rule matcher_star_lazy) (simp_all add: dot_class_def)

lemma greedy_suffixes_hd: "\<exists>rest. greedy_suffixes P s = dropWhile P s # rest"
  by (induction s) auto

lemma ci_prefix_append:
  "ci_prefix (xs @ ys) s = (ci_prefix xs s \<and> ci_prefix ys (drop (length xs) s))"
proof (induction xs arbitrary: s)
  case Nil
  show ?case by simp
next
  case (Cons x xs)
  show ?case by (cases s) (simp_all add: Cons.IH)
qed

lemma canonicalize_colon [simp]: "canonicalize 0x3A = canonicalize c \<longleftrightarrow> c = 0x3A"
  by (auto simp: canonicalize_def) 

lemma canonicalize_LF [simp]: "canonicalize LF = canonicalize c \<longleftrightarrow> c = LF"
  by (auto simp: canonicalize_def LF_def)

lemma drop_Suc_Cons_eq: "drop n s = c # cs \<Longrightarrow> drop (Suc n) s = cs"
  by (metis drop_Suc list.sel(3) tl_drop)

lemma matcher_marker_seq:
  assumes "ignoreCase f"
  shows "matcher f (Seq (Alt (lit a) (lit b)) (Seq (Chr 0x3A) X)) (s, cap) =
     (if ci_prefix (a @ [0x3A]) s then matcher f X (drop (Suc (length a)) s, cap) else []) @
     (if ci_prefix (b @ [0x3A]) s then matcher f X (drop (Suc (length b)) s, cap) else [])"
proof -
  have colon: "concat (map (matcher f (Seq (Chr 0x3A) X)) (if ci_prefix m s then [(drop (length m) s, cap)] else []))
      = (if ci_prefix (m @ [0x3A]) s then matcher f X (drop (Suc (length m)) s, cap) else [])" for m
  proof (cases "drop (length m) s")
    case Nil
    then show ?thesis by (simp add: ci_prefix_append)
  next
    case (Cons c cs)
    then show ?thesis
      using assms by (simp add: ci_prefix_append char_matches_def drop_Suc_Cons_eq)
  qed
  show ?thesis
    using assms colon [of a] colon [of b] by (simp add: matcher_lit)
qed

subsection \<open>The reason pattern\<close>

lemma matcher_reason_tail:
  assumes "dotAll f"
  shows "\<exists>rest. matcher f (Seq (Star True Space) (Group (Star True Dot))) (r, cap) =
           ([], Some (dropWhile is_space r)) # rest"
proof -
  obtain ts where ts: "greedy_suffixes is_space r = dropWhile is_space r # ts"
    using greedy_suffixes_hd by blast
  have "dot_class f = (\<lambda>c. True)"
    using assms by (simp add: dot_class_def fun_eq_iff)
  then obtain us where us: "greedy_suffixes (dot_class f) (dropWhile is_space r) = [] # us"
    using greedy_suffixes_hd [of "dot_class f" "dropWhile is_space r"] by auto
  show ?thesis
    by (simp add: matcher_star_space matcher_star_dot_greedy ts us)
qed

lemma asc_reason: "asc ''Reason:'' = asc ''Reason'' @ [0x3A]"
  by (simp add: asc_def)

lemma asc_job_title: "asc ''Job Title:'' = asc ''Job Title'' @ [0x3A]"
  by (simp add: asc_def)

lemma reason_matcher_eq:
  "matcher reason_flags reason_re (s, None) =
     (if ci_prefix (asc ''Reason'' @ [0x3A]) s
      then matcher reason_flags (Seq (Star True Space) (Group (Star True Dot)))
             (drop (Suc (length (asc ''Reason''))) s, None) else []) @
     (if ci_prefix (reason_marker_ko @ [0x3A]) s
      then matcher reason_flags (Seq (Star True Space) (Group (Star True Dot)))
             (drop (Suc (length reason_marker_ko)) s, None) else [])"
  unfolding reason_re_def by (rule matcher_marker_seq) (simp add: reason_flags_def)

lemma reason_matcher_none:
  assumes "marker_here reason_markers s = None"
  shows "matcher reason_flags reason_re (s, None) = []"
proof -
  have "\<not> ci_prefix (asc ''Reason'' @ [0x3A]) s" "\<not> ci_prefix (reason_marker_ko @ [0x3A]) s"
    using assms by (auto simp: marker_here_def reason_markers_def asc_reason split: if_splits)
  then show ?thesis
    by (simp add: reason_matcher_eq)
qed

lemma reason_matcher_some:
  assumes "marker_here reason_markers s = Some (mk, r)"
  shows "\<exists>rest. matcher reason_flags reason_re (s, None) = ([], Some (dropWhile is_space r)) # rest"
proof -
  let ?X = "Seq (Star True Space) (Group (Star True Dot))"
  have tail: "\<exists>rest. matcher reason_flags ?X (t, None) = ([], Some (dropWhile is_space t)) # rest" for t
    by (rule matcher_reason_tail) (simp add: reason_flags_def)
  show ?thesis
  proof (cases "ci_prefix (asc ''Reason'' @ [0x3A]) s")
    case True
    then have "r = drop (Suc (length (asc ''Reason''))) s"
      using assms by (simp add: marker_here_def reason_markers_def asc_reason)
    with True tail [of r] show ?thesis by (auto simp: reason_matcher_eq)
  next
    case False
    then have "ci_prefix (reason_marker_ko @ [0x3A]) s \<and> r = drop (Suc (length reason_marker_ko)) s"
      using assms by (auto simp: marker_here_def reason_markers_def asc_reason split: if_splits)
    with False tail [of r] show ?thesis by (auto simp: reason_matcher_eq)
  qed
qed

lemma reason_exec_none:
  "after_first_marker reason_markers s = None \<Longrightarrow> exec_from reason_flags reason_re i s = None"
proof (induction s arbitrary: i)
  case Nil
  then have "marker_here reason_markers [] = None" by simp
  then show ?case by (simp add: reason_matcher_none)
next
  case (Cons c cs)
  then have "marker_here reason_markers (c # cs) = None" "after_first_marker reason_markers cs = None"
    by (auto split: option.splits)
  then show ?case using Cons.IH by (simp add: reason_matcher_none)
qed

lemma reason_exec_some:
  "after_first_marker reason_markers s = Some r \<Longrightarrow>
     \<exists>m. exec_from reason_flags reason_re i s = Some m \<and> group1 m = Some (dropWhile is_space r)"
proof (induction s arbitrary: i)
  case Nil
  then obtain mk where "marker_here reason_markers [] = Some (mk, r)" by auto
  from reason_matcher_some [OF this] show ?case by auto
next
  case (Cons c cs)
  show ?case
  proof (cases "marker_here reason_markers (c # cs)")
    case None
    with Cons.prems have "after_first_marker reason_markers cs = Some r" by simp
    from Cons.IH [OF this, of "Suc i"] None show ?thesis
      by (simp add: reason_matcher_none)
  next
    case (Some a)
    with Cons.prems obtain mk where "marker_here reason_markers (c # cs) = Some (mk, r)"
      by (cases a) auto
    from reason_matcher_some [OF this] show ?thesis by auto
  qed
qed

lemma trim_dropWhile [simp]: "trim (dropWhile is_space s) = trim s"
  by (simp add: trim_def)

lemma parse_with_prompt:
  assumes "prompt \<noteq> []"
  shows "parseAnalysisText text (Some prompt) =
     Inr \<lparr>a_title = prompt,
          a_description = (case after_first_marker reason_markers text of
             Some r \<Rightarrow> trim r | None \<Rightarrow> text)\<rparr>"
proof (cases "after_first_marker reason_markers text")
  case None
  from reason_exec_none [OF this, of 0] None assms show ?thesis
    by (simp add: parseAnalysisText_def truthy_def match_def)
next
  case (Some r)
  from reason_exec_some [OF this, of 0] obtain m where
    "match text reason_flags reason_re = Some m" "group1 m = Some (dropWhile is_space r)"
    by (auto simp: match_def)
  with Some assms show ?thesis
    by (simp add: parseAnalysisText_def truthy_def group1_trim_def)
qed

subsection \<open>The title pattern\<close>

lemma LF_line_terminator [simp]: "is_line_terminator LF"
  by (simp add: is_line_terminator_def LF_def)

lemma lazy_line:
  assumes m: "\<And>c cs cap. m (c # cs) cap = (if c = LF then [(cs, cap)] else [])"
    and m_nil: "\<And>cap. m [] cap = []"
  shows "concat (map (\<lambda>u. m u (Some (take (length (pre @ t) - length u) (pre @ t))))
                  (lazy_suffixes (\<lambda>c. \<not> is_line_terminator c) t)) =
         (case line_here t of None \<Rightarrow> [] | Some (cap, post) \<Rightarrow> [(post, Some (pre @ cap))])"
proof (induction t arbitrary: pre)
  case Nil
  show ?case by (simp add: m_nil)
next
  case (Cons c cs)
  have step: "concat (map (\<lambda>u. m u (Some (take (length (pre @ c # cs) - length u) (pre @ c # cs))))
                  (lazy_suffixes (\<lambda>c. \<not> is_line_terminator c) cs)) =
         (case line_here cs of None \<Rightarrow> [] | Some (cap, post) \<Rightarrow> [(post, Some (pre @ c # cap))])"
    using Cons.IH [of "pre @ [c]"] by (simp split: option.splits)
  show ?case
  proof (cases "c = LF")
    case True
    then show ?thesis by (simp add: m)
  next
    case False
    show ?thesis
    proof (cases "is_line_terminator c")
      case True
      with False show ?thesis by (simp add: m)
    next
      case notlt: False
      have "concat (map (\<lambda>u. m u (Some (take (length (pre @ c # cs) - length u) (pre @ c # cs))))
                  (lazy_suffixes (\<lambda>c. \<not> is_line_terminator c) (c # cs))) =
            concat (map (\<lambda>u. m u (Some (take (length (pre @ c # cs) - length u) (pre @ c # cs))))
                  (lazy_suffixes (\<lambda>c. \<not> is_line_terminator c) cs))"
        using False notlt by (simp add: m)
      also note step
      finally show ?thesis
        using False notlt by (simp split: option.splits)
    qed
  qed
qed

lemma matcher_line:
  assumes "ignoreCase f" "\<not> dotAll f"
  shows "matcher f (Seq (Group (Star False Dot)) (Chr LF)) (t, cap0) =
         (case line_here t of None \<Rightarrow> [] | Some (cap, post) \<Rightarrow> [(post, Some cap)])"
proof -
  have dc: "dot_class f = (\<lambda>c. \<not> is_line_terminator c)"
    using assms by (simp add: dot_class_def fun_eq_iff)
  have "matcher f (Seq (Group (Star False Dot)) (Chr LF)) (t, cap0) =
        concat (map (\<lambda>u. matcher f (Chr LF) (u, Some (take (length ([] @ t) - length u) ([] @ t))))
                  (lazy_suffixes (\<lambda>c. \<not> is_line_terminator c) t))"
    by (simp add: matcher_star_dot_lazy dc comp_def del: matcher.simps(2))
  also have "\<dots> = (case line_here t of None \<Rightarrow> [] | Some (cap, post) \<Rightarrow> [(post, Some ([] @ cap))])"
    by (rule lazy_line) (simp_all add: char_matches_def assms)
  finally show ?thesis by (simp split: option.splits)
qed

lemma first_greedy_line:
  assumes g: "\<And>t. g t = (case line_here t of None \<Rightarrow> [] | Some (cap, post) \<Rightarrow> [h cap post])"
  shows "case title_line_here r of
           None \<Rightarrow> concat (map g (greedy_suffixes is_space r)) = []
         | Some (ws, cap, post) \<Rightarrow>
             (\<exists>rest. concat (map g (greedy_suffixes is_space r)) = h cap post # rest)"
proof (induction r)
  case Nil
  show ?case by (simp add: g)
next
  case (Cons c cs)
  have single: ?case
    if t: "title_line_here (c # cs) =
             (case line_here (c # cs) of None \<Rightarrow> None | Some (cap, post) \<Rightarrow> Some ([], cap, post))"
      and e: "concat (map g (greedy_suffixes is_space (c # cs))) = g (c # cs)"
  proof (cases "line_here (c # cs)")
    case None
    have "title_line_here (c # cs) = None"
      using t None by (simp only: option.case)
    moreover have "concat (map g (greedy_suffixes is_space (c # cs))) = []"
      using e g [of "c # cs"] None by (simp only: option.case)
    ultimately show ?thesis by (simp only: option.case)
  next
    case (Some a)
    obtain cap post where a: "a = (cap, post)" by (cases a)
    have "title_line_here (c # cs) = Some ([], cap, post)"
      using t Some a by (simp only: option.case prod.case)
    moreover have "concat (map g (greedy_suffixes is_space (c # cs))) = [h cap post]"
      using e g [of "c # cs"] Some a by (simp only: option.case prod.case)
    ultimately show ?thesis by (simp only: option.case prod.case) simp
  qed
  show ?case
  proof (cases "is_space c")
    case True
    show ?thesis
    proof (cases "title_line_here cs")
      case None
      then have "concat (map g (greedy_suffixes is_space cs)) = []"
        using Cons.IH by simp
      then have "concat (map g (greedy_suffixes is_space (c # cs))) = g (c # cs)"
        using True by simp
      moreover have "title_line_here (c # cs) =
             (case line_here (c # cs) of None \<Rightarrow> None | Some (cap, post) \<Rightarrow> Some ([], cap, post))"
        using True None by simp
      ultimately show ?thesis by (rule single [rotated])
    next
      case (Some a)
      with Cons.IH True show ?thesis
        by (cases a) auto
    qed
  next
    case False
    then have "concat (map g (greedy_suffixes is_space (c # cs))) = g (c # cs)"
      by simp
    moreover have "title_line_here (c # cs) =
             (case line_here (c # cs) of None \<Rightarrow> None | Some (cap, post) \<Rightarrow> Some ([], cap, post))"
      using False by simp
    ultimately show ?thesis by (rule single [rotated])
  qed
qed

lemma matcher_title_tail:
  assumes "ignoreCase f" "\<not> dotAll f"
  shows "case title_line_here r of
           None \<Rightarrow> matcher f (Seq (Star True Space) (Seq (Group (Star False Dot)) (Chr LF))) (r, None) = []
         | Some (ws, cap, post) \<Rightarrow>
             (\<exists>rest. matcher f (Seq (Star True Space) (Seq (Group (Star False Dot)) (Chr LF))) (r, None) =
                (post, Some cap) # rest)"
proof -
  let ?Y = "Seq (Group (Star False Dot)) (Chr LF)"
  have eq: "matcher f (Seq (Star True Space) ?Y) (r, None) =
          concat (map (\<lambda>t. matcher f ?Y (t, None)) (greedy_suffixes is_space r))"
    by (simp only: matcher.simps(5) matcher_star_space map_map comp_def)
  have "case title_line_here r of
           None \<Rightarrow> concat (map (\<lambda>t. matcher f ?Y (t, None)) (greedy_suffixes is_space r)) = []
         | Some (ws, cap, post) \<Rightarrow>
             (\<exists>rest. concat (map (\<lambda>t. matcher f ?Y (t, None)) (greedy_suffixes is_space r)) =
                (post, Some cap) # rest)"
    by (rule first_greedy_line [where h = "\<lambda>cap post. (post, Some cap)"])
       (simp only: matcher_line [OF assms])
  then show ?thesis by (simp only: eq)
qed

lemma title_markers_exclusive:
  "\<not> (ci_prefix (asc ''Job Title'' @ [0x3A]) s \<and> ci_prefix (title_marker_ko @ [0x3A]) s)"
proof (cases s)
  case Nil
  then show ?thesis by (simp add: asc_def)
next
  case (Cons c cs)
  have "canonicalize (0x4A :: cu) \<noteq> canonicalize 0xC9C1"
    by (simp add: canonicalize_def)
  then show ?thesis
    using Cons by (auto simp: asc_def title_marker_ko_def)
qed


lemma title_matcher_eq:
  "matcher title_flags title_re (s, None) =
     (if ci_prefix (asc ''Job Title'' @ [0x3A]) s
      then matcher title_flags (Seq (Star True Space) (Seq (Group (Star False Dot)) (Chr LF)))
             (drop (Suc (length (asc ''Job Title''))) s, None) else []) @
     (if ci_prefix (title_marker_ko @ [0x3A]) s
      then matcher title_flags (Seq (Star True Space) (Seq (Group (Star False Dot)) (Chr LF)))
             (drop (Suc (length title_marker_ko)) s, None) else [])"
  unfolding title_re_def by (rule matcher_marker_seq) (simp add: title_flags_def)


lemma title_marker_here_cases:
  "marker_here title_markers s =
     (if ci_prefix (asc ''Job Title'' @ [0x3A]) s
      then Some (take (Suc (length (asc ''Job Title''))) s, drop (Suc (length (asc ''Job Title''))) s)
      else if ci_prefix (title_marker_ko @ [0x3A]) s
      then Some (take (Suc (length title_marker_ko)) s, drop (Suc (length title_marker_ko)) s)
      else None)"
  by (simp add: marker_here_def title_markers_def asc_job_title)


lemma title_tail_none:
  "title_line_here r = None \<Longrightarrow>
     matcher title_flags (Seq (Star True Space) (Seq (Group (Star False Dot)) (Chr LF))) (r, None) = []"
  using matcher_title_tail [of title_flags r] by (simp add: title_flags_def)


lemma title_tail_some:
  "title_line_here r = Some (ws, cap, post) \<Longrightarrow>
     \<exists>rest. matcher title_flags (Seq (Star True Space) (Seq (Group (Star False Dot)) (Chr LF))) (r, None) =
       (post, Some cap) # rest"
  using matcher_title_tail [of title_flags r] by (simp add: title_flags_def)


lemma title_matcher_none:
  assumes "title_here s = None"
  shows "matcher title_flags title_re (s, None) = []"
proof (cases "ci_prefix (asc ''Job Title'' @ [0x3A]) s")
  case True
  then have "title_line_here (drop (Suc (length (asc ''Job Title''))) s) = None"
    using assms by (simp add: title_here_def title_marker_here_cases split: option.splits)
  moreover have "\<not> ci_prefix (title_marker_ko @ [0x3A]) s"
    using True title_markers_exclusive by blast
  ultimately show ?thesis
    using True by (simp add: title_matcher_eq title_tail_none del: matcher.simps(5))
next
  case False
  show ?thesis
  proof (cases "ci_prefix (title_marker_ko @ [0x3A]) s")
    case True
    then have "title_line_here (drop (Suc (length title_marker_ko)) s) = None"
      using assms False by (simp add: title_here_def title_marker_here_cases split: option.splits)
    then show ?thesis
      using True False by (simp add: title_matcher_eq title_tail_none del: matcher.simps(5))
  next
    case nomark: False
    with False show ?thesis by (simp add: title_matcher_eq)
  qed
qed


lemma title_matcher_some:
  assumes "title_here s = Some (mk, ws, cap, post)"
  shows "\<exists>rest. matcher title_flags title_re (s, None) = (post, Some cap) # rest"
proof (cases "ci_prefix (asc ''Job Title'' @ [0x3A]) s")
  case True
  then have "title_line_here (drop (Suc (length (asc ''Job Title''))) s) = Some (ws, cap, post)"
    using assms by (simp add: title_here_def title_marker_here_cases split: option.splits)
  from title_tail_some [OF this] True show ?thesis
    by (auto simp: title_matcher_eq simp del: matcher.simps(5))
next
  case False
  then have "ci_prefix (title_marker_ko @ [0x3A]) s"
    using assms by (simp add: title_here_def title_marker_here_cases split: if_splits)
  moreover from this have "title_line_here (drop (Suc (length title_marker_ko)) s) = Some (ws, cap, post)"
    using assms False by (simp add: title_here_def title_marker_here_cases split: option.splits)
  ultimately show ?thesis
    using False title_tail_some [of "drop (Suc (length title_marker_ko)) s" ws cap post]
    by (auto simp: title_matcher_eq simp del: matcher.simps(5))
qed

lemma line_here_Some:
  "line_here t = Some (cap, post) \<Longrightarrow>
     t = cap @ LF # post \<and> (\<forall>c\<in>set cap. \<not> is_line_terminator c)"
proof (induction t arbitrary: cap)
  case Nil
  then show ?case by simp
next
  case (Cons c cs)
  then show ?case
    by (auto split: if_splits option.splits)
qed

lemma title_line_here_Cons:
  "title_line_here (c # cs) =
     (if is_space c \<and> title_line_here cs \<noteq> None
      then map_option (\<lambda>(ws, cap, post). (c # ws, cap, post)) (title_line_here cs)
      else map_option (\<lambda>(cap, post). ([], cap, post)) (line_here (c # cs)))"
  by (cases "title_line_here cs"; cases "line_here (c # cs)")
     (auto simp del: line_here.simps)

lemma title_line_here_Some:
  "title_line_here r = Some (ws, cap, post) \<Longrightarrow>
     r = ws @ cap @ LF # post \<and> (\<forall>c\<in>set ws. is_space c) \<and>
     (\<forall>c\<in>set cap. \<not> is_line_terminator c)"
proof (induction r arbitrary: ws)
  case Nil
  then show ?case by simp
next
  case (Cons c cs)
  show ?case
  proof (cases "is_space c \<and> title_line_here cs \<noteq> None")
    case True
    then obtain ws' where ws': "title_line_here cs = Some (ws', cap, post)" "ws = c # ws'"
      using Cons.prems unfolding title_line_here_Cons by auto
    from Cons.IH [OF ws'(1)] True ws'(2) show ?thesis by simp
  next
    case False
    then have lh: "line_here (c # cs) = Some (cap, post)" and ws: "ws = []"
      using Cons.prems unfolding title_line_here_Cons
      by (auto simp del: line_here.simps)
    from line_here_Some [OF lh] ws show ?thesis by simp
  qed
qed

lemma title_here_Some:
  assumes "title_here s = Some (mk, ws, cap, post)"
  shows "s = mk @ ws @ cap @ LF # post \<and> (\<forall>c\<in>set ws. is_space c) \<and>
     (\<forall>c\<in>set cap. \<not> is_line_terminator c)"
proof -
  obtain r where r: "marker_here title_markers s = Some (mk, r)" "title_line_here r = Some (ws, cap, post)"
    using assms by (auto simp: title_here_def split: option.splits)
  have "s = mk @ r"
    using r(1) by (auto simp: marker_here_def split: option.splits)
  with title_line_here_Some [OF r(2)] show ?thesis by simp
qed

lemma title_exec:
  "exec_from title_flags title_re i s =
     (case title_scan s of
        None \<Rightarrow> None
      | Some (pre, mk, ws, cap, post) \<Rightarrow>
          Some \<lparr>index = i + length pre, whole = mk @ ws @ cap @ [LF], group1 = Some cap\<rparr>)"
proof (induction s arbitrary: i)
  case Nil
  have "title_here [] = None"
    by (simp add: title_here_def title_marker_here_cases asc_def title_marker_ko_def)
  from title_matcher_none [OF this] show ?case by simp
next
  case (Cons c cs)
  show ?case
  proof (cases "title_here (c # cs)")
    case None
    from title_matcher_none [OF this] None Cons.IH [of "Suc i"] show ?thesis
      by (simp split: option.splits)
  next
    case (Some a)
    obtain mk ws cap post where a: "a = (mk, ws, cap, post)" by (cases a)
    from title_matcher_some [OF Some [unfolded a]] obtain rest where
      m: "matcher title_flags title_re (c # cs, None) = (post, Some cap) # rest" by blast
    from title_here_Some [OF Some [unfolded a]] have s: "c # cs = mk @ ws @ cap @ LF # post" by simp
    have "take (length (c # cs) - length post) (c # cs) = mk @ ws @ cap @ [LF]"
      by (simp only: s) simp
    with m Some a show ?thesis by simp
  qed
qed

lemma is_prefix_append: "is_prefix p (p @ x)"
  by (induction p) simp_all

lemma is_prefix_D: "is_prefix p s \<Longrightarrow> s = p @ drop (length p) s"
proof (induction p arbitrary: s)
  case Nil
  show ?case by simp
next
  case (Cons a p)
  then show ?case by (cases s) auto
qed

lemma line_here_complete:
  "\<forall>c\<in>set cap. \<not> is_line_terminator c \<Longrightarrow> line_here (cap @ LF # post) = Some (cap, post)"
proof (induction cap)
  case Nil
  show ?case by simp
next
  case (Cons c cap)
  then have "c \<noteq> LF" by auto
  with Cons show ?case by simp
qed

lemma title_line_here_complete:
  assumes "\<forall>c\<in>set ws. is_space c" "\<forall>c\<in>set cap. \<not> is_line_terminator c"
  shows "title_line_here (ws @ cap @ LF # post) \<noteq> None"
  using assms(1)
proof (induction ws)
  case Nil
  have lh: "line_here (cap @ LF # post) = Some (cap, post)"
    using assms(2) by (rule line_here_complete)
  show ?case
  proof (cases "cap @ LF # post")
    case Nil
    then show ?thesis by simp
  next
    case (Cons c cs)
    with lh have "line_here (c # cs) = Some (cap, post)" by simp
    then have "title_line_here (c # cs) \<noteq> None"
      unfolding title_line_here_Cons by (auto simp del: line_here.simps)
    with Cons show ?thesis by simp
  qed
next
  case (Cons w ws)
  then have "title_line_here (ws @ cap @ LF # post) \<noteq> None" "is_space w" by simp_all
  then show ?case
    unfolding append_Cons title_line_here_Cons by (auto simp del: line_here.simps)
qed

lemma ci_prefix_take: "ci_prefix m s \<Longrightarrow> ci_prefix m (take (length m) s @ x)"
proof (induction m arbitrary: s)
  case Nil
  show ?case by simp
next
  case (Cons a m)
  then show ?case by (cases s) auto
qed

lemma ci_prefix_length: "ci_prefix m s \<Longrightarrow> length m \<le> length s"
proof (induction m arbitrary: s)
  case Nil
  show ?case by simp
next
  case (Cons a m)
  then show ?case by (cases s) auto
qed

lemma title_marker_here_again:
  assumes "marker_here title_markers s = Some (mk, r)"
  shows "marker_here title_markers (mk @ y) = Some (mk, y)"
proof -
  have again: "ci_prefix m (mk @ y) \<and> take (length m) (mk @ y) = mk \<and> drop (length m) (mk @ y) = y"
    if "ci_prefix m s" "mk = take (length m) s" for m
  proof -
    have "length mk = length m"
      using that ci_prefix_length [of m s] by simp
    then show ?thesis
      using that ci_prefix_take [of m s y] by simp
  qed
  show ?thesis
  proof (cases "ci_prefix (asc ''Job Title'' @ [0x3A]) s")
    case True
    then have "mk = take (length (asc ''Job Title'' @ [0x3A])) s"
      using assms by (simp add: title_marker_here_cases)
    from again [OF True this] show ?thesis
      by (simp add: title_marker_here_cases)
  next
    case False
    then have m2: "ci_prefix (title_marker_ko @ [0x3A]) s"
      using assms by (simp add: title_marker_here_cases split: if_splits)
    then have "mk = take (length (title_marker_ko @ [0x3A])) s"
      using assms False by (simp add: title_marker_here_cases)
    from again [OF m2 this] title_markers_exclusive [of "mk @ y"] show ?thesis
      by (simp add: title_marker_here_cases)
  qed
qed

lemma title_here_complete:
  assumes "title_here s = Some (mk, ws, cap, post)"
  shows "title_here (mk @ ws @ cap @ LF # x) \<noteq> None"
proof -
  from title_here_Some [OF assms] have
    "\<forall>c\<in>set ws. is_space c" and "\<forall>c\<in>set cap. \<not> is_line_terminator c"
    by simp_all
  then have tl: "title_line_here (ws @ cap @ LF # x) \<noteq> None"
    by (rule title_line_here_complete)
  obtain r where "marker_here title_markers s = Some (mk, r)"
    using assms by (auto simp: title_here_def split: option.splits)
  from title_marker_here_again [OF this, of "ws @ cap @ LF # x"] tl show ?thesis
    by (auto simp: title_here_def)
qed

lemma title_scan_Some:
  "title_scan s = Some (pre, mk, ws, cap, post) \<Longrightarrow>
     s = pre @ mk @ ws @ cap @ LF # post \<and>
     title_here (mk @ ws @ cap @ LF # post) = Some (mk, ws, cap, post)"
proof (induction s arbitrary: pre)
  case Nil
  then show ?case by simp
next
  case (Cons c cs)
  show ?case
  proof (cases "title_here (c # cs)")
    case None
    with Cons.prems obtain pre' where
      "title_scan cs = Some (pre', mk, ws, cap, post)" "pre = c # pre'"
      by (auto split: option.splits)
    with Cons.IH [of pre'] show ?thesis by simp
  next
    case (Some a)
    with Cons.prems have a: "a = (mk, ws, cap, post)" "pre = []"
      by (auto split: prod.splits)
    from title_here_Some [OF Some [unfolded a(1)]] Some a show ?thesis by simp
  qed
qed

lemma replace_title:
  "title_scan tx = Some (pre, mk, ws, cap, post) \<Longrightarrow>
     replace tx (mk @ ws @ cap @ [LF]) [] = pre @ post"
proof (induction tx arbitrary: pre)
  case Nil
  then show ?case by simp
next
  case (Cons c cs)
  let ?w = "mk @ ws @ cap @ [LF]"
  show ?case
  proof (cases "title_here (c # cs)")
    case None
    with Cons.prems obtain pre' where
      sc: "title_scan cs = Some (pre', mk, ws, cap, post)" and pre: "pre = c # pre'"
      by (auto split: option.splits)
    have "\<not> is_prefix ?w (c # cs)"
    proof
      assume "is_prefix ?w (c # cs)"
      from is_prefix_D [OF this] obtain x where "c # cs = mk @ ws @ cap @ LF # x"
        by simp
      moreover from title_scan_Some [OF sc]
      have "title_here (mk @ ws @ cap @ LF # x) \<noteq> None"
        by (intro title_here_complete [of "mk @ ws @ cap @ LF # post"]) simp
      ultimately show False using None by simp
    qed
    with Cons.IH [OF sc] pre show ?thesis by simp
  next
    case (Some a)
    with Cons.prems have a: "a = (mk, ws, cap, post)" "pre = []"
      by (auto split: prod.splits)
    from title_here_Some [OF Some [unfolded a(1)]] have eq: "c # cs = ?w @ post" by simp
    have "is_prefix ?w (c # cs)"
      unfolding eq by (rule is_prefix_append)
    then have "replace (c # cs) ?w [] = drop (length ?w) (c # cs)" by simp
    also have "\<dots> = post" unfolding eq by simp
    finally show ?thesis using a by simp
  qed
qed

lemma parse_without_prompt:
  assumes "\<not> truthy p"
  shows "parseAnalysisText text p =
     Inr \<lparr>a_title =
            (case title_scan text of
               None \<Rightarrow> fallback_title
             | Some (pre, mk, ws, cap, post) \<Rightarrow> trim cap),
          a_description =
            (case after_first_marker reason_markers text of
               Some r \<Rightarrow> trim r
             | None \<Rightarrow>
                 (case title_scan text of
                    None \<Rightarrow> text
                  | Some (pre, mk, ws, cap, post) \<Rightarrow> trim (pre @ post)))\<rparr>"
proof -
  have tm: "match text title_flags title_re =
     (case title_scan text of
        None \<Rightarrow> None
      | Some (pre, mk, ws, cap, post) \<Rightarrow>
          Some \<lparr>index = length pre, whole = mk @ ws @ cap @ [LF], group1 = Some cap\<rparr>)"
    using title_exec [of 0 "text"] by (simp add: match_def split: option.splits)
  show ?thesis
  proof (cases "after_first_marker reason_markers text")
    case None
    from reason_exec_none [OF this, of 0] have rm: "match text reason_flags reason_re = None"
      by (simp add: match_def)
    show ?thesis
    proof (cases "title_scan text")
      case tnone: None
      with None rm tm assms show ?thesis
        by (simp add: parseAnalysisText_def)
    next
      case (Some a)
      obtain pre mk ws cap post where a: "a = (pre, mk, ws, cap, post)"
        by (cases a)
      from replace_title [OF Some [unfolded a]] None rm tm assms Some a show ?thesis
        by (simp add: parseAnalysisText_def group1_trim_def)
    qed
  next
    case (Some r)
    from reason_exec_some [OF this, of 0] obtain m where
      rm: "match text reason_flags reason_re = Some m" "group1 m = Some (dropWhile is_space r)"
      by (auto simp: match_def)
    show ?thesis
    proof (cases "title_scan text")
      case None
      with Some rm tm assms show ?thesis
        by (simp add: parseAnalysisText_def group1_trim_def)
    next
      case tsome: (Some a)
      obtain pre mk ws cap post where a: "a = (pre, mk, ws, cap, post)"
        by (cases a)
      with tsome Some rm tm assms show ?thesis
        by (simp add: parseAnalysisText_def group1_trim_def)
    qed
  qed
qed

subsection \<open>What the scans find\<close>

text \<open>
  The scans in words. What \<open>after_first_marker\<close> returns follows a piece of the text
  that spells a marker, and no marker starts further left; it returns nothing exactly
  when no marker starts anywhere. A title line starts at a position exactly when the
  text there is a spelling of a title marker, white space, a run without line
  terminators and a line feed; \<open>title_scan\<close> returns the leftmost position where one
  starts, and nothing exactly when none starts anywhere.
\<close>

lemma ci_prefix_spells:
  "ci_prefix m s \<longleftrightarrow> length m \<le> length s \<and> spells (take (length m) s) m"
proof (induction m arbitrary: s)
  case Nil
  show ?case by (simp add: spells_def)
next
  case (Cons a m)
  show ?case
  proof (cases s)
    case Nil
    then show ?thesis by simp
  next
    case (Cons c cs)
    with Cons.IH [of cs] show ?thesis by (auto simp: spells_def)
  qed
qed

lemma marker_here_Some:
  assumes "marker_here ms s = Some (mk, r)"
  shows "s = mk @ r \<and> (\<exists>m\<in>set ms. length mk = length m \<and> spells mk m)"
proof -
  from assms obtain m where m: "find (\<lambda>m. ci_prefix m s) ms = Some m"
    "mk = take (length m) s" "r = drop (length m) s"
    by (auto simp: marker_here_def split: option.splits)
  from m(1) have "m \<in> set ms" "ci_prefix m s"
    by (auto simp: find_Some_iff)
  with m(2,3) show ?thesis
    by (auto simp: ci_prefix_spells)
qed

lemma marker_here_None: "marker_here ms s = None \<longleftrightarrow> (\<forall>m\<in>set ms. \<not> ci_prefix m s)"
proof -
  have "marker_here ms s = None \<longleftrightarrow> find (\<lambda>m. ci_prefix m s) ms = None"
    by (simp add: marker_here_def split: option.splits)
  then show ?thesis
    by (auto simp: find_None_iff)
qed

lemma after_first_marker_Some:
  "after_first_marker ms s = Some r \<Longrightarrow>
     \<exists>pre mk. s = pre @ mk @ r \<and> (\<exists>m\<in>set ms. length mk = length m \<and> spells mk m) \<and>
       (\<forall>k<length pre. marker_here ms (drop k s) = None)"
proof (induction s)
  case Nil
  then obtain mk where "marker_here ms [] = Some (mk, r)" by auto
  from marker_here_Some [OF this] show ?case by auto
next
  case (Cons c cs)
  show ?case
  proof (cases "marker_here ms (c # cs)")
    case None
    with Cons.prems have "after_first_marker ms cs = Some r" by simp
    from Cons.IH [OF this] obtain pre mk where
      p: "cs = pre @ mk @ r" "\<exists>m\<in>set ms. length mk = length m \<and> spells mk m"
        "\<forall>k<length pre. marker_here ms (drop k cs) = None"
      by blast
    have "\<forall>k<length (c # pre). marker_here ms (drop k (c # cs)) = None"
    proof (intro allI impI)
      fix k assume "k < length (c # pre)"
      then show "marker_here ms (drop k (c # cs)) = None"
        using None p(3) by (cases k) auto
    qed
    with p(1,2) have "c # cs = (c # pre) @ mk @ r \<and>
       (\<exists>m\<in>set ms. length mk = length m \<and> spells mk m) \<and>
       (\<forall>k<length (c # pre). marker_here ms (drop k (c # cs)) = None)"
      by simp
    then show ?thesis by blast
  next
    case (Some a)
    with Cons.prems obtain mk where "marker_here ms (c # cs) = Some (mk, r)"
      by (cases a) auto
    from marker_here_Some [OF this]
    have "c # cs = [] @ mk @ r \<and> (\<exists>m\<in>set ms. length mk = length m \<and> spells mk m) \<and>
       (\<forall>k<length ([] :: jsstr). marker_here ms (drop k (c # cs)) = None)"
      by simp
    then show ?thesis by blast
  qed
qed

lemma after_first_marker_None:
  "after_first_marker ms s = None \<longleftrightarrow> (\<forall>k\<le>length s. marker_here ms (drop k s) = None)"
proof (induction s)
  case Nil
  show ?case by simp
next
  case (Cons c cs)
  have "(\<forall>k\<le>length (c # cs). marker_here ms (drop k (c # cs)) = None) \<longleftrightarrow>
        marker_here ms (c # cs) = None \<and> (\<forall>k\<le>length cs. marker_here ms (drop k cs) = None)"
  proof
    assume a: "\<forall>k\<le>length (c # cs). marker_here ms (drop k (c # cs)) = None"
    have "marker_here ms (drop k cs) = None" if "k \<le> length cs" for k
      using a [rule_format, of "Suc k"] that by simp
    moreover have "marker_here ms (c # cs) = None"
      using a [rule_format, of 0] by simp
    ultimately show "marker_here ms (c # cs) = None \<and>
        (\<forall>k\<le>length cs. marker_here ms (drop k cs) = None)"
      by blast
  next
    assume a: "marker_here ms (c # cs) = None \<and>
        (\<forall>k\<le>length cs. marker_here ms (drop k cs) = None)"
    show "\<forall>k\<le>length (c # cs). marker_here ms (drop k (c # cs)) = None"
    proof (intro allI impI)
      fix k assume "k \<le> length (c # cs)"
      then show "marker_here ms (drop k (c # cs)) = None"
        using a by (cases k) auto
    qed
  qed
  with Cons.IH show ?case
    by (auto split: option.splits)
qed

lemma title_here_iff:
  "title_here s \<noteq> None \<longleftrightarrow>
     (\<exists>mk ws cap post. s = mk @ ws @ cap @ LF # post \<and>
        (\<exists>m\<in>set title_markers. length mk = length m \<and> spells mk m) \<and>
        (\<forall>c\<in>set ws. is_space c) \<and> (\<forall>c\<in>set cap. \<not> is_line_terminator c))"
proof
  assume "title_here s \<noteq> None"
  then obtain mk ws cap post where t: "title_here s = Some (mk, ws, cap, post)"
    by auto
  then obtain r where r: "marker_here title_markers s = Some (mk, r)"
    by (auto simp: title_here_def split: option.splits)
  from marker_here_Some [OF r] title_here_Some [OF t]
  show "\<exists>mk ws cap post. s = mk @ ws @ cap @ LF # post \<and>
        (\<exists>m\<in>set title_markers. length mk = length m \<and> spells mk m) \<and>
        (\<forall>c\<in>set ws. is_space c) \<and> (\<forall>c\<in>set cap. \<not> is_line_terminator c)"
    by blast
next
  assume "\<exists>mk ws cap post. s = mk @ ws @ cap @ LF # post \<and>
        (\<exists>m\<in>set title_markers. length mk = length m \<and> spells mk m) \<and>
        (\<forall>c\<in>set ws. is_space c) \<and> (\<forall>c\<in>set cap. \<not> is_line_terminator c)"
  then obtain mk ws cap post m where
    s: "s = mk @ ws @ cap @ LF # post" and m: "m \<in> set title_markers" "length mk = length m"
      "spells mk m" and
    ws: "\<forall>c\<in>set ws. is_space c" and cap: "\<forall>c\<in>set cap. \<not> is_line_terminator c"
    by blast
  let ?r = "ws @ cap @ LF # post"
  have pre: "ci_prefix m (mk @ ?r)"
    using m(2,3) by (simp add: ci_prefix_spells)
  have tl: "title_line_here ?r \<noteq> None"
    using ws cap by (rule title_line_here_complete)
  have "marker_here title_markers (mk @ ?r) = Some (mk, ?r)"
  proof (cases "m = asc ''Job Title'' @ [0x3A]")
    case True
    with pre m(2) show ?thesis
      by (simp add: title_marker_here_cases)
  next
    case False
    with m(1) have mk: "m = title_marker_ko @ [0x3A]"
      by (simp add: title_markers_def asc_job_title)
    with pre title_markers_exclusive [of "mk @ ?r"] m(2) show ?thesis
      by (simp add: title_marker_here_cases)
  qed
  with tl show "title_here s \<noteq> None"
    by (auto simp: title_here_def s)
qed

lemma title_scan_None:
  "title_scan s = None \<longleftrightarrow> (\<forall>k<length s. title_here (drop k s) = None)"
proof (induction s)
  case Nil
  show ?case by simp
next
  case (Cons c cs)
  have "(\<forall>k<length (c # cs). title_here (drop k (c # cs)) = None) \<longleftrightarrow>
        title_here (c # cs) = None \<and> (\<forall>k<length cs. title_here (drop k cs) = None)"
  proof
    assume a: "\<forall>k<length (c # cs). title_here (drop k (c # cs)) = None"
    have "title_here (drop k cs) = None" if "k < length cs" for k
      using a [rule_format, of "Suc k"] that by simp
    moreover have "title_here (c # cs) = None"
      using a [rule_format, of 0] by simp
    ultimately show "title_here (c # cs) = None \<and> (\<forall>k<length cs. title_here (drop k cs) = None)"
      by blast
  next
    assume a: "title_here (c # cs) = None \<and> (\<forall>k<length cs. title_here (drop k cs) = None)"
    show "\<forall>k<length (c # cs). title_here (drop k (c # cs)) = None"
    proof (intro allI impI)
      fix k assume "k < length (c # cs)"
      then show "title_here (drop k (c # cs)) = None"
        using a by (cases k) auto
    qed
  qed
  with Cons.IH show ?case
    by (auto split: option.splits)
qed

lemma title_scan_leftmost:
  "title_scan s = Some (pre, mk, ws, cap, post) \<Longrightarrow>
     title_here (drop (length pre) s) = Some (mk, ws, cap, post) \<and>
     (\<forall>k<length pre. title_here (drop k s) = None)"
proof (induction s arbitrary: pre)
  case Nil
  then show ?case by simp
next
  case (Cons c cs)
  show ?case
  proof (cases "title_here (c # cs)")
    case None
    with Cons.prems obtain pre' where
      sc: "title_scan cs = Some (pre', mk, ws, cap, post)" and pre: "pre = c # pre'"
      by (auto split: option.splits)
    from Cons.IH [OF sc] have ih:
      "title_here (drop (length pre') cs) = Some (mk, ws, cap, post)"
      "\<forall>k<length pre'. title_here (drop k cs) = None"
      by blast+
    have "title_here (drop k (c # cs)) = None" if "k < length pre" for k
    proof (cases k)
      case 0
      with None show ?thesis by simp
    next
      case (Suc j)
      with that pre have "j < length pre'" by simp
      with ih(2) Suc show ?thesis by simp
    qed
    moreover have "title_here (drop (length pre) (c # cs)) = Some (mk, ws, cap, post)"
      using ih(1) pre by simp
    ultimately show ?thesis by blast
  next
    case (Some a)
    with Cons.prems have "a = (mk, ws, cap, post)" "pre = []"
      by (auto split: prod.splits)
    with Some have "title_here (drop (length pre) (c # cs)) = Some (mk, ws, cap, post)"
      "length pre = 0"
      by (simp_all del: title_scan.simps)
    then show ?thesis by (simp only: not_less_zero simp_thms)
  qed
qed

section \<open>parseAnalysisText with a prompt\<close>

text \<open>
  C4. With a non-empty prompt, \<open>parseAnalysisText\<close> returns the prompt itself as the
  title. The description is what follows the first \<open>Reason:\<close> (letter case ignored) or
  its Korean counterpart up to the end of the text, line breaks included, trimmed; a
  text without such a marker is returned as it is, not trimmed. The title markers
  play no part.
\<close>

theorem parseAnalysisText_prompt:
  "prompt \<noteq> [] \<Longrightarrow>
     parseAnalysisText text (Some prompt) =
       Inr \<lparr>a_title = prompt,
            a_description =
              (case after_first_marker reason_markers text of
                 Some r \<Rightarrow> trim r
               | None \<Rightarrow> text)\<rparr>"
  by (rule parse_with_prompt)

text \<open>
  An instance: the text has a title line, which is ignored, and a reason with white
  space at its end.
\<close>

theorem parseAnalysisText_prompt_witness:
  "asc ''Astronaut'' \<noteq> [] \<and>
   parseAnalysisText
     (title_marker_ko @ asc '': Pilot'' @ [LF] @ reason_marker_ko @ asc '': because space. '')
     (Some (asc ''Astronaut'')) =
     Inr \<lparr>a_title = asc ''Astronaut'', a_description = asc ''because space.''\<rparr>"
proof -
  let ?t = "title_marker_ko @ asc '': Pilot'' @ [LF] @ reason_marker_ko @ asc '': because space. ''"
  have h: "asc ''Astronaut'' \<noteq> []"
    by (simp add: asc_def)
  have e: "(case after_first_marker reason_markers ?t of Some r \<Rightarrow> trim r | None \<Rightarrow> ?t) =
             asc ''because space.''"
    by code_simp
  show ?thesis
    using parseAnalysisText_prompt [OF h, of ?t] h by (simp only: e simp_thms)
qed

text \<open>
  A text without a reason marker is not trimmed: with the prompt \<open>X\<close>, the text
  \<open>" hello "\<close> comes back with its blanks.
\<close>

theorem parseAnalysisText_prompt_counterexample:
  "after_first_marker reason_markers (asc '' hello '') = None \<and>
   parseAnalysisText (asc '' hello '') (Some (asc ''X'')) =
     Inr \<lparr>a_title = asc ''X'', a_description = asc '' hello ''\<rparr> \<and>
   parseAnalysisText (asc '' hello '') (Some (asc ''X'')) \<noteq>
     Inr \<lparr>a_title = asc ''X'', a_description = trim (asc '' hello '')\<rparr>"
  by code_simp

section \<open>parseAnalysisText without a prompt\<close>




section \<open>Reading the response\<close>

lemma data_uri_truthy: "truthy (Some (data_uri b))"
  by (simp add: truthy_def data_uri_def asc_def)

lemma scan_parts_append:
  "scan_parts (xs @ ys) acc = scan_parts ys (scan_parts xs acc)"
proof (induction xs arbitrary: acc)
  case Nil
  show ?case by simp
next
  case (Cons x xs)
  show ?case by (cases acc) (simp add: Cons.IH)
qed

lemma scan_parts_no_image:
  "\<forall>p\<in>set ps. inlineData p = None \<Longrightarrow> fst (scan_parts ps (i, t)) = i"
  by (induction ps arbitrary: t) auto

lemma scan_parts_no_text:
  "\<forall>p\<in>set ps. inlineData p \<noteq> None \<or> \<not> truthy (part_text p) \<Longrightarrow>
     snd (scan_parts ps (i, t)) = t"
  by (induction ps arbitrary: i) (auto split: option.splits)

lemma scan_parts_last_image:
  assumes "ps = ps1 @ ip # ps2" "inlineData ip = Some b" "\<forall>p\<in>set ps2. inlineData p = None"
  shows "fst (scan_parts ps acc) = Some (data_uri b)"
proof -
  obtain i t where "scan_parts ps1 acc = (i, t)" by (cases "scan_parts ps1 acc")
  then have "scan_parts ps acc = scan_parts ps2 (Some (data_uri b), t)"
    using assms(1,2) by (simp add: scan_parts_append)
  then show ?thesis
    using scan_parts_no_image [OF assms(3)] by simp
qed

lemma scan_parts_last_text:
  assumes "ps = qs1 @ tp # qs2" "inlineData tp = None" "part_text tp = Some t" "t \<noteq> []"
    "\<forall>p\<in>set qs2. inlineData p \<noteq> None \<or> \<not> truthy (part_text p)"
  shows "snd (scan_parts ps acc) = Some t"
proof -
  obtain i t0 where "scan_parts qs1 acc = (i, t0)" by (cases "scan_parts qs1 acc")
  then have "scan_parts ps acc = scan_parts qs2 (i, Some t)"
    using assms(1-4) by (simp add: scan_parts_append truthy_def)
  then show ?thesis
    using scan_parts_no_text [OF assms(5)] by simp
qed

lemma scan_parts_image_origin:
  "fst (scan_parts ps (i, t)) = Some x \<Longrightarrow>
     i = Some x \<or> (\<exists>p\<in>set ps. inlineData p \<noteq> None)"
proof (induction ps arbitrary: i t)
  case Nil
  then show ?case by simp
next
  case (Cons p ps)
  then show ?case
    by (cases "inlineData p") (auto split: if_splits)
qed

lemma scan_parts_text_origin:
  "snd (scan_parts ps (i, t)) = Some x \<Longrightarrow>
     t = Some x \<or> (\<exists>p\<in>set ps. inlineData p = None \<and> truthy (part_text p))"
proof (induction ps arbitrary: i t)
  case Nil
  then show ?case by simp
next
  case (Cons p ps)
  show ?case
  proof (cases "inlineData p")
    case None
    show ?thesis
    proof (cases "truthy (part_text p)")
      case True
      with None show ?thesis by simp
    next
      case False
      with None Cons.prems have "snd (scan_parts ps (i, t)) = Some x" by simp
      from Cons.IH [OF this] show ?thesis by auto
    qed
  next
    case (Some b)
    with Cons.prems have "snd (scan_parts ps (Some (data_uri b), t)) = Some x" by simp
    from Cons.IH [OF this] show ?thesis by auto
  qed
qed

lemma parse_total: "\<exists>a. parseAnalysisText t p = Inr a"
proof (cases "truthy p")
  case True
  then obtain s where "p = Some s" "s \<noteq> []"
    by (cases p) (auto simp: truthy_def)
  then show ?thesis by (simp add: parse_with_prompt)
next
  case False
  then show ?thesis by (simp add: parse_without_prompt)
qed

lemma interpret_first_candidate:
  assumes "candidates r = Some (c # cs)" "extract_parts c = (img, txt)"
  shows "interpret_response r prompt =
     (if \<not> truthy img \<or> \<not> truthy txt then Inl (Error (incomplete_message c img txt))
      else (case parseAnalysisText (case txt of Some t \<Rightarrow> t | None \<Rightarrow> []) (Some prompt) of
              Inl e \<Rightarrow> Inl e
            | Inr a \<Rightarrow>
                Inr \<lparr>image = (case img of Some i \<Rightarrow> i | None \<Rightarrow> []),
                     title = a_title a, description = a_description a\<rparr>))"
  using assms by (simp add: interpret_response_def)

lemma interpret_no_candidate:
  assumes "candidates r = None \<or> candidates r = Some []"
  shows "interpret_response r prompt = Inl (Error (blocked_message r))"
  using assms by (auto simp: interpret_response_def)

lemma str_includes_prefix: "is_prefix pat s \<Longrightarrow> str_includes s pat"
  by (cases s; cases pat) simp_all

lemma str_includes_append_left: "str_includes s pat \<Longrightarrow> str_includes (a @ s) pat"
  by (induction a) simp_all

lemma str_includes_middle: "str_includes (a @ b @ c) b"
  by (intro str_includes_append_left str_includes_prefix is_prefix_append)

lemma find_blocked_first:
  "(\<forall>x\<in>set rs1. \<not> blocked x) \<Longrightarrow> blocked rt \<Longrightarrow> find blocked (rs1 @ rt # rs2) = Some rt"
  by (induction rs1) simp_all

lemma find_blocked_none: "(\<forall>x\<in>set rs. \<not> blocked x) \<Longrightarrow> find blocked rs = None"
  by (induction rs) simp_all

text \<open>
  C1. When the parts of the first candidate hold an image part and a text part with a
  non-empty text, the response handling does not fail: the image of the result is
  \<open>data:<mimeType>;base64,<data>\<close> of the last part with image data, and title and
  description are what \<open>parseAnalysisText\<close> reads from the text of the last text part
  (a part without image data whose text is not empty). Conversely, a result is
  returned only when the first candidate has a part with image data and a part without
  image data whose text is not empty.
\<close>

theorem interpret_success:
  "(candidates r = Some (c # cs) \<and> content c = Some ct \<and> parts ct = Some ps \<and>
    ps = ps1 @ ip # ps2 \<and> inlineData ip = Some b \<and> (\<forall>p\<in>set ps2. inlineData p = None) \<and>
    ps = qs1 @ tp # qs2 \<and> inlineData tp = None \<and> part_text tp = Some t \<and> t \<noteq> [] \<and>
    (\<forall>p\<in>set qs2. inlineData p \<noteq> None \<or> \<not> truthy (part_text p))
    \<longrightarrow> (\<exists>a. parseAnalysisText t (Some prompt) = Inr a \<and>
           interpret_response r prompt =
             Inr \<lparr>image = asc ''data:'' @ mimeType b @ asc '';base64,'' @ data b,
                  title = a_title a, description = a_description a\<rparr>)) \<and>
   (interpret_response r prompt = Inr g
    \<longrightarrow> (\<exists>c cs ct ps ip tp.
           candidates r = Some (c # cs) \<and> content c = Some ct \<and> parts ct = Some ps \<and>
           ip \<in> set ps \<and> inlineData ip \<noteq> None \<and>
           tp \<in> set ps \<and> inlineData tp = None \<and> truthy (part_text tp)))"
proof (intro conjI impI)
  assume h: "candidates r = Some (c # cs) \<and> content c = Some ct \<and> parts ct = Some ps \<and>
    ps = ps1 @ ip # ps2 \<and> inlineData ip = Some b \<and> (\<forall>p\<in>set ps2. inlineData p = None) \<and>
    ps = qs1 @ tp # qs2 \<and> inlineData tp = None \<and> part_text tp = Some t \<and> t \<noteq> [] \<and>
    (\<forall>p\<in>set qs2. inlineData p \<noteq> None \<or> \<not> truthy (part_text p))"
  then have h1: "ps = ps1 @ ip # ps2" "inlineData ip = Some b" "\<forall>p\<in>set ps2. inlineData p = None"
    and h2: "ps = qs1 @ tp # qs2" "inlineData tp = None" "part_text tp = Some t" "t \<noteq> []"
      "\<forall>p\<in>set qs2. inlineData p \<noteq> None \<or> \<not> truthy (part_text p)"
    by blast+
  have img: "fst (scan_parts ps (None, None)) = Some (data_uri b)"
    using h1 by (rule scan_parts_last_image)
  have tx: "snd (scan_parts ps (None, None)) = Some t"
    using h2 by (rule scan_parts_last_text)
  from img tx h have ex: "extract_parts c = (Some (data_uri b), Some t)"
    by (simp add: extract_parts_def prod_eq_iff)
  obtain a where a: "parseAnalysisText t (Some prompt) = Inr a"
    using parse_total by blast
  from h have "candidates r = Some (c # cs)" by simp
  from interpret_first_candidate [OF this ex, of prompt] a h data_uri_truthy [of b]
  show "\<exists>a. parseAnalysisText t (Some prompt) = Inr a \<and>
           interpret_response r prompt =
             Inr \<lparr>image = asc ''data:'' @ mimeType b @ asc '';base64,'' @ data b,
                  title = a_title a, description = a_description a\<rparr>"
    by (simp add: truthy_def data_uri_def)
next
  assume ok: "interpret_response r prompt = Inr g"
  then obtain c cs where c: "candidates r = Some (c # cs)"
    by (cases "candidates r"; cases "the (candidates r)") (auto simp: interpret_response_def)
  obtain im ty where ex: "extract_parts c = (im, ty)"
    by (cases "extract_parts c")
  from interpret_first_candidate [OF c ex, of prompt] ok
  have tr: "truthy im" "truthy ty"
    by (auto split: if_splits)
  then obtain ct ps where ps: "content c = Some ct" "parts ct = Some ps"
    "scan_parts ps (None, None) = (im, ty)"
    using ex by (auto simp: extract_parts_def truthy_def split: option.splits)
  from tr obtain x y where xy: "im = Some x" "ty = Some y"
    by (auto simp: truthy_def split: option.splits)
  from scan_parts_image_origin [of ps None None x] ps(3) xy
  obtain ip where ip: "ip \<in> set ps" "inlineData ip \<noteq> None" by auto
  from scan_parts_text_origin [of ps None None y] ps(3) xy
  obtain tp where tp: "tp \<in> set ps" "inlineData tp = None" "truthy (part_text tp)" by auto
  from c ps ip tp
  show "\<exists>c cs ct ps ip tp.
           candidates r = Some (c # cs) \<and> content c = Some ct \<and> parts ct = Some ps \<and>
           ip \<in> set ps \<and> inlineData ip \<noteq> None \<and>
           tp \<in> set ps \<and> inlineData tp = None \<and> truthy (part_text tp)"
    by blast
qed

text \<open>
  An instance with two images and two texts: the second image and the second text are
  used.
\<close>

theorem interpret_success_witness:
  "interpret_response
     \<lparr>candidates = Some [\<lparr>content = Some \<lparr>parts = Some
        [\<lparr>inlineData = Some \<lparr>data = asc ''AAAA'', mimeType = asc ''image/png''\<rparr>, part_text = None\<rparr>,
         \<lparr>inlineData = None, part_text = Some (asc ''first'')\<rparr>,
         \<lparr>inlineData = Some \<lparr>data = asc ''QUJD'', mimeType = asc ''image/jpeg''\<rparr>, part_text = None\<rparr>,
         \<lparr>inlineData = None, part_text = Some (reason_marker_ko @ asc '': ok'')\<rparr>]\<rparr>,
        finishReason = Some (asc ''STOP''), safetyRatings = None\<rparr>],
      promptFeedback = None\<rparr>
     (asc ''Chef'') =
   Inr \<lparr>image = asc ''data:image/jpeg;base64,QUJD'', title = asc ''Chef'',
        description = asc ''ok''\<rparr>"
proof -
  let ?p1 = "\<lparr>inlineData = Some \<lparr>data = asc ''AAAA'', mimeType = asc ''image/png''\<rparr>, part_text = None\<rparr>"
  let ?p2 = "\<lparr>inlineData = None, part_text = Some (asc ''first'')\<rparr>"
  let ?b = "\<lparr>data = asc ''QUJD'', mimeType = asc ''image/jpeg''\<rparr>"
  let ?p3 = "\<lparr>inlineData = Some ?b, part_text = None\<rparr>"
  let ?t = "reason_marker_ko @ asc '': ok''"
  let ?p4 = "\<lparr>inlineData = None, part_text = Some ?t\<rparr>"
  let ?ps = "[?p1, ?p2, ?p3, ?p4]"
  let ?ct = "\<lparr>parts = Some ?ps\<rparr>"
  let ?c = "\<lparr>content = Some ?ct, finishReason = Some (asc ''STOP''), safetyRatings = None\<rparr>"
  let ?r = "\<lparr>candidates = Some [?c], promptFeedback = None\<rparr>"
  have hyp: "candidates ?r = Some (?c # []) \<and> content ?c = Some ?ct \<and> parts ?ct = Some ?ps \<and>
    ?ps = [?p1, ?p2] @ ?p3 # [?p4] \<and> inlineData ?p3 = Some ?b \<and>
    (\<forall>p\<in>set [?p4]. inlineData p = None) \<and>
    ?ps = [?p1, ?p2, ?p3] @ ?p4 # [] \<and> inlineData ?p4 = None \<and> part_text ?p4 = Some ?t \<and>
    ?t \<noteq> [] \<and> (\<forall>p\<in>set []. inlineData p \<noteq> None \<or> \<not> truthy (part_text p))"
    by (simp add: reason_marker_ko_def)
  have p: "parseAnalysisText ?t (Some (asc ''Chef'')) =
             Inr \<lparr>a_title = asc ''Chef'', a_description = asc ''ok''\<rparr>"
    by code_simp
  have u: "asc ''data:'' @ mimeType ?b @ asc '';base64,'' @ data ?b =
             asc ''data:image/jpeg;base64,QUJD''"
    by (simp add: asc_def)
  from interpret_success [of ?r ?c "[]" ?ct ?ps "[?p1, ?p2]" ?p3 "[?p4]" ?b "[?p1, ?p2, ?p3]" ?p4 "[]"
      ?t "asc ''Chef''"] hyp
  obtain a where "parseAnalysisText ?t (Some (asc ''Chef'')) = Inr a"
    "interpret_response ?r (asc ''Chef'') =
       Inr \<lparr>image = asc ''data:'' @ mimeType ?b @ asc '';base64,'' @ data ?b,
            title = a_title a, description = a_description a\<rparr>"
    by blast
  with p u show ?thesis by simp
qed

text \<open>
  C2. When the image or the text is missing, the error is chosen in a fixed order:
  first the finish reason \<open>SAFETY\<close>; otherwise the first safety rating that is
  blocked, whose category the message names; otherwise a finish reason that is there
  (a non-empty string, as every value of the enumeration is) and is not \<open>STOP\<close>,
  which the message names; otherwise one of three different messages for an image
  without text, a text without image, or neither. A finish reason \<open>SAFETY\<close> wins over
  a blocked rating.
\<close>

theorem interpret_failure_order:
  assumes "candidates r = Some (c # cs)" "extract_parts c = (img, txt)"
    "\<not> truthy img \<or> \<not> truthy txt"
  shows
   "(finishReason c = Some (asc ''SAFETY'')
       \<longrightarrow> interpret_response r prompt = Inl (Error msg_safety)) \<and>
    (finishReason c \<noteq> Some (asc ''SAFETY'') \<and> safetyRatings c = Some (rs1 @ rt # rs2) \<and>
     (\<forall>x\<in>set rs1. \<not> blocked x) \<and> blocked rt
       \<longrightarrow> interpret_response r prompt =
             Inl (Error (msg_policy_pre @ category rt @ msg_policy_post))) \<and>
    (finishReason c = Some fr \<and> fr \<noteq> asc ''SAFETY'' \<and> fr \<noteq> asc ''STOP'' \<and> fr \<noteq> [] \<and>
     (\<forall>rs. safetyRatings c = Some rs \<longrightarrow> (\<forall>x\<in>set rs. \<not> blocked x))
       \<longrightarrow> interpret_response r prompt =
             Inl (Error (msg_stopped_pre @ fr @ msg_stopped_post))) \<and>
    ((finishReason c = None \<or> finishReason c = Some [] \<or> finishReason c = Some (asc ''STOP'')) \<and>
     (\<forall>rs. safetyRatings c = Some rs \<longrightarrow> (\<forall>x\<in>set rs. \<not> blocked x))
       \<longrightarrow> interpret_response r prompt =
             Inl (Error ((if truthy img \<and> \<not> truthy txt then msg_image_no_text
                          else if \<not> truthy img \<and> truthy txt then msg_text_no_image
                          else msg_neither) @ msg_try_again))) \<and>
    msg_image_no_text \<noteq> msg_text_no_image \<and> msg_image_no_text \<noteq> msg_neither \<and>
    msg_text_no_image \<noteq> msg_neither"
proof -
  have fail: "interpret_response r prompt = Inl (Error (incomplete_message c img txt))"
    using interpret_first_candidate [OF assms(1,2), of prompt] assms(3) by auto
  have none: "(case safetyRatings c of None \<Rightarrow> None | Some rs \<Rightarrow> find blocked rs) = None"
    if "\<forall>rs. safetyRatings c = Some rs \<longrightarrow> (\<forall>x\<in>set rs. \<not> blocked x)"
    using that by (cases "safetyRatings c") (simp_all add: find_blocked_none)
  have stop: "asc ''STOP'' \<noteq> asc ''SAFETY''" "asc ''STOP'' \<noteq> []" "asc ''SAFETY'' \<noteq> []"
    by (simp_all add: asc_def)
  have 1: "finishReason c = Some (asc ''SAFETY'')
       \<longrightarrow> interpret_response r prompt = Inl (Error msg_safety)"
    by (simp add: fail incomplete_message_def)
  have 2: "finishReason c \<noteq> Some (asc ''SAFETY'') \<and> safetyRatings c = Some (rs1 @ rt # rs2) \<and>
     (\<forall>x\<in>set rs1. \<not> blocked x) \<and> blocked rt
       \<longrightarrow> interpret_response r prompt =
             Inl (Error (msg_policy_pre @ category rt @ msg_policy_post))"
    by (simp add: fail incomplete_message_def find_blocked_first)
  have 3: "finishReason c = Some fr \<and> fr \<noteq> asc ''SAFETY'' \<and> fr \<noteq> asc ''STOP'' \<and> fr \<noteq> [] \<and>
     (\<forall>rs. safetyRatings c = Some rs \<longrightarrow> (\<forall>x\<in>set rs. \<not> blocked x))
       \<longrightarrow> interpret_response r prompt =
             Inl (Error (msg_stopped_pre @ fr @ msg_stopped_post))"
    using none by (auto simp: fail incomplete_message_def truthy_def)
  have 4: "(finishReason c = None \<or> finishReason c = Some [] \<or> finishReason c = Some (asc ''STOP'')) \<and>
     (\<forall>rs. safetyRatings c = Some rs \<longrightarrow> (\<forall>x\<in>set rs. \<not> blocked x))
       \<longrightarrow> interpret_response r prompt =
             Inl (Error ((if truthy img \<and> \<not> truthy txt then msg_image_no_text
                          else if \<not> truthy img \<and> truthy txt then msg_text_no_image
                          else msg_neither) @ msg_try_again))"
    using none stop by (auto simp: fail incomplete_message_def truthy_def)
  have 5: "msg_image_no_text \<noteq> msg_text_no_image" "msg_image_no_text \<noteq> msg_neither"
    "msg_text_no_image \<noteq> msg_neither"
    by (simp_all add: msg_image_no_text_def msg_text_no_image_def msg_neither_def asc_def)
  from 1 2 3 4 5 show ?thesis by (intro conjI)
qed

text \<open>An instance: finish reason \<open>SAFETY\<close> together with a blocked rating.\<close>

theorem interpret_failure_order_witness:
  "interpret_response
     \<lparr>candidates = Some [\<lparr>content = None, finishReason = Some (asc ''SAFETY''),
        safetyRatings = Some [\<lparr>category = asc ''HARM_CATEGORY_HARASSMENT'', blocked = True\<rparr>]\<rparr>],
      promptFeedback = None\<rparr>
     (asc ''Chef'') = Inl (Error msg_safety)"
proof -
  let ?c = "\<lparr>content = None, finishReason = Some (asc ''SAFETY''),
        safetyRatings = Some [\<lparr>category = asc ''HARM_CATEGORY_HARASSMENT'', blocked = True\<rparr>]\<rparr>"
  let ?r = "\<lparr>candidates = Some [?c], promptFeedback = None\<rparr>"
  have h1: "candidates ?r = Some (?c # [])" by simp
  have h2: "extract_parts ?c = (None, None)" by (simp add: extract_parts_def)
  have h3: "\<not> truthy None \<or> \<not> truthy None" by (simp add: truthy_def)
  from interpret_failure_order [OF h1 h2 h3, of "asc ''Chef''"] show ?thesis by simp
qed

text \<open>
  C6. A response without candidates (the list is absent or empty) always fails: with
  the message that names the top-level block reason when there is one, with the
  general message otherwise. No result is returned.
\<close>

theorem interpret_no_candidates:
  assumes "candidates r = None \<or> candidates r = Some []"
  shows
   "(\<forall>pf b. promptFeedback r = Some pf \<and> blockReason pf = Some b \<and> b \<noteq> []
       \<longrightarrow> interpret_response r prompt =
             Inl (Error (msg_blocked_pre @ b @ msg_blocked_post)) \<and>
           str_includes (msg_blocked_pre @ b @ msg_blocked_post) b) \<and>
    (promptFeedback r = None \<or>
     (\<exists>pf. promptFeedback r = Some pf \<and> (blockReason pf = None \<or> blockReason pf = Some []))
       \<longrightarrow> interpret_response r prompt = Inl (Error msg_blocked_generic)) \<and>
    (\<forall>g. interpret_response r prompt \<noteq> Inr g)"
  using interpret_no_candidate [OF assms, of prompt]
  by (auto simp: blocked_message_def str_includes_middle)

text \<open>Two instances: an empty list with a block reason, and no list at all.\<close>

theorem interpret_no_candidates_witness:
  "interpret_response
     \<lparr>candidates = Some [], promptFeedback = Some \<lparr>blockReason = Some (asc ''SAFETY'')\<rparr>\<rparr>
     (asc ''Chef'') =
     Inl (Error (asc ''Request blocked: SAFETY. Please adjust your input.'')) \<and>
   interpret_response \<lparr>candidates = None, promptFeedback = None\<rparr> (asc ''Chef'') =
     Inl (Error msg_blocked_generic)"
proof -
  let ?pf = "\<lparr>blockReason = Some (asc ''SAFETY'')\<rparr>"
  let ?r1 = "\<lparr>candidates = Some [], promptFeedback = Some ?pf\<rparr>"
  let ?r2 = "\<lparr>candidates = None, promptFeedback = None\<rparr>"
  have h1: "candidates ?r1 = None \<or> candidates ?r1 = Some []" by simp
  have h2: "candidates ?r2 = None \<or> candidates ?r2 = Some []" by simp
  have ne: "asc ''SAFETY'' \<noteq> []" by (simp add: asc_def)
  have m: "msg_blocked_pre @ asc ''SAFETY'' @ msg_blocked_post =
             asc ''Request blocked: SAFETY. Please adjust your input.''"
    by (simp add: msg_blocked_pre_def msg_blocked_post_def asc_def)
  from interpret_no_candidates [OF h1, of "asc ''Chef''"] ne
  have "interpret_response ?r1 (asc ''Chef'') =
          Inl (Error (msg_blocked_pre @ asc ''SAFETY'' @ msg_blocked_post))"
    by simp
  moreover from interpret_no_candidates [OF h2, of "asc ''Chef''"]
  have "interpret_response ?r2 (asc ''Chef'') = Inl (Error msg_blocked_generic)"
    by simp
  ultimately show ?thesis by (simp only: m simp_thms)
qed

text \<open>
  C8. An empty text counts as no text: when the first candidate has a part with image
  data, and every part without image data has no text or the empty text, the response
  handling fails. Without a safety signal (finish reason \<open>SAFETY\<close>, a blocked
  rating) the message depends on the finish reason: when it is absent or \<open>STOP\<close>,
  the message is the one for an image without text; any other finish reason gives the
  message of an unexpected stop, which names it. The text of a part that has image
  data is never used, whatever it is.
\<close>

theorem interpret_empty_text:
  assumes "candidates r = Some (c # cs)" "content c = Some ct" "parts ct = Some ps"
    "\<exists>p\<in>set ps. inlineData p \<noteq> None"
    "\<forall>p\<in>set ps. inlineData p = None \<longrightarrow> part_text p = None \<or> part_text p = Some []"
  shows
   "(\<exists>m. interpret_response r prompt = Inl (Error m)) \<and>
    ((finishReason c = None \<or> finishReason c = Some [] \<or> finishReason c = Some (asc ''STOP'')) \<and>
     (\<forall>rs. safetyRatings c = Some rs \<longrightarrow> (\<forall>x\<in>set rs. \<not> blocked x))
       \<longrightarrow> interpret_response r prompt = Inl (Error (msg_image_no_text @ msg_try_again))) \<and>
    (finishReason c = Some fr \<and> fr \<noteq> asc ''SAFETY'' \<and> fr \<noteq> asc ''STOP'' \<and> fr \<noteq> [] \<and>
     (\<forall>rs. safetyRatings c = Some rs \<longrightarrow> (\<forall>x\<in>set rs. \<not> blocked x))
       \<longrightarrow> interpret_response r prompt =
             Inl (Error (msg_stopped_pre @ fr @ msg_stopped_post)))"
proof -
  have "\<forall>p\<in>set ps. inlineData p \<noteq> None \<or> \<not> truthy (part_text p)"
    using assms(5) by (auto simp: truthy_def)
  then have t: "snd (scan_parts ps (None, None)) = None"
    by (rule scan_parts_no_text)
  from split_list_last_prop [OF assms(4)] obtain ps1 ip ps2 where
    sp: "ps = ps1 @ ip # ps2" "inlineData ip \<noteq> None" "\<forall>p\<in>set ps2. inlineData p = None"
    by auto
  then obtain b where b: "inlineData ip = Some b" by auto
  have i: "fst (scan_parts ps (None, None)) = Some (data_uri b)"
    using sp(1) b sp(3) by (rule scan_parts_last_image)
  from i t have ex: "extract_parts c = (Some (data_uri b), None)"
    using assms(2,3) by (simp add: extract_parts_def prod_eq_iff)
  have f: "interpret_response r prompt =
             Inl (Error (incomplete_message c (Some (data_uri b)) None))"
    using interpret_first_candidate [OF assms(1) ex, of prompt] by (simp add: truthy_def)
  have none: "(case safetyRatings c of None \<Rightarrow> None | Some rs \<Rightarrow> find blocked rs) = None"
    if "\<forall>rs. safetyRatings c = Some rs \<longrightarrow> (\<forall>x\<in>set rs. \<not> blocked x)"
    using that by (cases "safetyRatings c") (simp_all add: find_blocked_none)
  have stop: "asc ''STOP'' \<noteq> asc ''SAFETY''" "asc ''STOP'' \<noteq> []" "asc ''SAFETY'' \<noteq> []"
    by (simp_all add: asc_def)
  have 1: "(finishReason c = None \<or> finishReason c = Some [] \<or>
      finishReason c = Some (asc ''STOP'')) \<and>
     (\<forall>rs. safetyRatings c = Some rs \<longrightarrow> (\<forall>x\<in>set rs. \<not> blocked x))
       \<longrightarrow> interpret_response r prompt = Inl (Error (msg_image_no_text @ msg_try_again))"
    using none stop data_uri_truthy [of b]
    by (auto simp: f incomplete_message_def truthy_def)
  have 2: "finishReason c = Some fr \<and> fr \<noteq> asc ''SAFETY'' \<and> fr \<noteq> asc ''STOP'' \<and> fr \<noteq> [] \<and>
     (\<forall>rs. safetyRatings c = Some rs \<longrightarrow> (\<forall>x\<in>set rs. \<not> blocked x))
       \<longrightarrow> interpret_response r prompt =
             Inl (Error (msg_stopped_pre @ fr @ msg_stopped_post))"
    using none by (auto simp: f incomplete_message_def truthy_def)
  from f 1 2 show ?thesis by blast
qed

text \<open>
  An instance: a part with image data and a caption, and a text part with the empty
  text.
\<close>

theorem interpret_empty_text_witness:
  "interpret_response
     \<lparr>candidates = Some [\<lparr>content = Some \<lparr>parts = Some
        [\<lparr>inlineData = Some \<lparr>data = asc ''QUJD'', mimeType = asc ''image/png''\<rparr>,
          part_text = Some (asc ''a caption'')\<rparr>,
         \<lparr>inlineData = None, part_text = Some []\<rparr>]\<rparr>,
        finishReason = Some (asc ''STOP''), safetyRatings = None\<rparr>],
      promptFeedback = None\<rparr>
     (asc ''Chef'') = Inl (Error (msg_image_no_text @ msg_try_again))"
proof -
  let ?p1 = "\<lparr>inlineData = Some \<lparr>data = asc ''QUJD'', mimeType = asc ''image/png''\<rparr>,
          part_text = Some (asc ''a caption'')\<rparr>"
  let ?p2 = "\<lparr>inlineData = None, part_text = Some []\<rparr>"
  let ?ct = "\<lparr>parts = Some [?p1, ?p2]\<rparr>"
  let ?c = "\<lparr>content = Some ?ct, finishReason = Some (asc ''STOP''), safetyRatings = None\<rparr>"
  let ?r = "\<lparr>candidates = Some [?c], promptFeedback = None\<rparr>"
  have h1: "candidates ?r = Some (?c # [])" by simp
  have h2: "content ?c = Some ?ct" by simp
  have h3: "parts ?ct = Some [?p1, ?p2]" by simp
  have h4: "\<exists>p\<in>set [?p1, ?p2]. inlineData p \<noteq> None" by simp
  have h5: "\<forall>p\<in>set [?p1, ?p2]. inlineData p = None \<longrightarrow> part_text p = None \<or> part_text p = Some []"
    by simp
  from interpret_empty_text [OF h1 h2 h3 h4 h5, of "asc ''Chef''"] show ?thesis by simp
qed

text \<open>
  An image, an empty text, no safety signal, and the finish reason \<open>MAX_TOKENS\<close>:
  the message is the one of an unexpected stop, not the one for an image without text.
\<close>

theorem interpret_empty_text_counterexample:
  "interpret_response
     \<lparr>candidates = Some [\<lparr>content = Some \<lparr>parts = Some
        [\<lparr>inlineData = Some \<lparr>data = asc ''QUJD'', mimeType = asc ''image/png''\<rparr>,
          part_text = None\<rparr>,
         \<lparr>inlineData = None, part_text = Some []\<rparr>]\<rparr>,
        finishReason = Some (asc ''MAX_TOKENS''), safetyRatings = None\<rparr>],
      promptFeedback = None\<rparr>
     (asc ''Chef'') =
     Inl (Error (asc ''Generation stopped unexpectedly: MAX_TOKENS. '' @
                 asc ''Please try a different image or prompt.'')) \<and>
   asc ''Generation stopped unexpectedly: MAX_TOKENS. '' @
     asc ''Please try a different image or prompt.'' \<noteq> msg_image_no_text @ msg_try_again"
  by code_simp

section \<open>Building the request\<close>

lemma split_no_sep: "sep \<notin> set s \<Longrightarrow> split s sep = [s]"
  by (induction s) auto

lemma split_hd: "\<exists>rest. split s sep = takeWhile (\<lambda>c. c \<noteq> sep) s # rest"
  by (induction s) auto

lemma split_at_sep: "sep \<notin> set a \<Longrightarrow> split (a @ sep # b) sep = a # split b sep"
  by (induction a) auto

lemma second_piece:
  assumes "sep \<notin> set a"
  shows "at_index (split (a @ sep # b) sep) (Suc 0) = Some (takeWhile (\<lambda>c. c \<noteq> sep) b)"
proof -
  obtain rest where "split b sep = takeWhile (\<lambda>c. c \<noteq> sep) b # rest"
    using split_hd by blast
  with assms show ?thesis by (simp add: split_at_sep)
qed

lemma second_piece_none: "sep \<notin> set s \<Longrightarrow> at_index (split s sep) (Suc 0) = None"
  by (simp add: split_no_sep)

lemma is_prefix_sep: "c \<notin> set n \<Longrightarrow> is_prefix n (a @ c # b) = is_prefix n a"
proof (induction n arbitrary: a)
  case Nil
  show ?case by simp
next
  case (Cons d ns)
  then show ?case by (cases a) auto
qed

lemma str_includes_sep:
  "c \<notin> set n \<Longrightarrow> str_includes (a @ c # b) n = (str_includes a n \<or> str_includes b n)"
proof (induction a)
  case Nil
  then show ?case by (cases n) auto
next
  case (Cons x a)
  then show ?case
    using is_prefix_sep [of c n "x # a" b] by auto
qed

lemma is_prefix_hd: "is_prefix (x # n) s \<Longrightarrow> x \<in> set s"
  by (cases s) auto

lemma str_includes_hd: "str_includes s (x # n) \<Longrightarrow> x \<in> set s"
  by (induction s) (auto dest: is_prefix_hd)

lemma title_needle: "title_marker_ko @ [0x3A] = 0xC9C1 # [0xC5C5, 0xBA85, 0x3A]"
  by (simp add: title_marker_ko_def)

lemma piece_1_no_title: "\<not> str_includes prompt_template_1 (title_marker_ko @ [0x3A])"
proof -
  have "0xC9C1 \<notin> set prompt_template_1"
    by (simp add: prompt_template_1_def asc_def)
  then show ?thesis
    unfolding title_needle by (blast dest: str_includes_hd)
qed

lemma piece_2_no_title: "\<not> str_includes prompt_template_2 (title_marker_ko @ [0x3A])"
proof -
  have "0xC9C1 \<notin> set prompt_template_2"
    by (simp add: prompt_template_2_def asc_def)
  then show ?thesis
    unfolding title_needle by (blast dest: str_includes_hd)
qed

lemma piece_34_no_title:
  "\<not> str_includes (prompt_template_3 @ reason_marker_ko @ [0x3A] @ prompt_template_4)
       (title_marker_ko @ [0x3A])"
proof -
  have "0xC9C1 \<notin> set (prompt_template_3 @ reason_marker_ko @ [0x3A] @ prompt_template_4)"
    by (simp add: prompt_template_3_def prompt_template_4_def reason_marker_ko_def asc_def)
  then show ?thesis
    unfolding title_needle by (blast dest: str_includes_hd)
qed

lemma piece_5_no_title: "\<not> str_includes prompt_template_5 (title_marker_ko @ [0x3A])"
  by code_simp

lemma textPrompt_reason: "str_includes (textPrompt p) (reason_marker_ko @ [0x3A])"
proof (cases "p = []")
  case True
  have "str_includes
          ((no_prompt_template_1 @ title_marker_ko @ [0x3A] @ no_prompt_template_2) @
           (reason_marker_ko @ [0x3A]) @ no_prompt_template_3)
          (reason_marker_ko @ [0x3A])"
    by (rule str_includes_middle)
  with True show ?thesis
    by (simp add: textPrompt_def no_prompt_template_def)
next
  case False
  have "str_includes
          ((prompt_template_1 @ [0x22] @ p @ [0x22] @ prompt_template_2 @ [0x22] @ p @ [0x22] @
            prompt_template_3) @
           (reason_marker_ko @ [0x3A]) @
           (prompt_template_4 @ [0x27] @ p @ [0x27] @ prompt_template_5))
          (reason_marker_ko @ [0x3A])"
    by (rule str_includes_middle)
  with False show ?thesis
    by (simp add: textPrompt_def prompt_template_def)
qed

lemma textPrompt_title_empty: "str_includes (textPrompt []) (title_marker_ko @ [0x3A])"
proof -
  have "str_includes
          (no_prompt_template_1 @ (title_marker_ko @ [0x3A]) @
           (no_prompt_template_2 @ reason_marker_ko @ [0x3A] @ no_prompt_template_3))
          (title_marker_ko @ [0x3A])"
    by (rule str_includes_middle)
  then show ?thesis
    by (simp add: textPrompt_def no_prompt_template_def)
qed

lemma textPrompt_title_iff:
  assumes "p \<noteq> []"
  shows "str_includes (textPrompt p) (title_marker_ko @ [0x3A]) =
         str_includes p (title_marker_ko @ [0x3A])"
proof -
  let ?n = "title_marker_ko @ [0x3A]"
  let ?f = "prompt_template_3 @ reason_marker_ko @ [0x3A] @ prompt_template_4"
  have dq: "0x22 \<notin> set ?n" and sq: "0x27 \<notin> set ?n"
    by (simp_all add: title_marker_ko_def)
  have "textPrompt p =
          prompt_template_1 @ 0x22 # (p @ 0x22 # (prompt_template_2 @ 0x22 #
            (p @ 0x22 # (?f @ 0x27 # (p @ 0x27 # prompt_template_5)))))"
    using assms by (simp add: textPrompt_def prompt_template_def)
  then show ?thesis
    by (simp only: str_includes_sep [OF dq] str_includes_sep [OF sq]
          piece_1_no_title piece_2_no_title piece_34_no_title piece_5_no_title simp_thms)
qed

lemma compose_parts:
  "composeRequest img mt p = [InlineData (at_index (split img 0x2C) 1) mt, Text (textPrompt p)]"
  by (simp add: composeRequest_def)

text \<open>
  C5. The request has exactly two parts, the image part first and the instruction
  second. The image part carries the media type as it is, and as data the piece of the
  image text after its first comma, up to the next comma if there is one. The
  instruction always has the reason marker. Without a prompt (the empty prompt) it has
  the title marker too; with a prompt, the fixed text of the template has no title
  marker, so the instruction has one exactly when the prompt itself, which is spliced
  in, has one.
\<close>

theorem composeRequest_parts:
  "\<exists>d t. composeRequest img mt p = [InlineData d mt, Text t] \<and>
     (\<forall>a b. img = a @ 0x2C # b \<and> 0x2C \<notin> set a \<longrightarrow> d = Some (takeWhile (\<lambda>c. c \<noteq> 0x2C) b)) \<and>
     str_includes t (reason_marker_ko @ [0x3A]) \<and>
     (p = [] \<longrightarrow> str_includes t (title_marker_ko @ [0x3A])) \<and>
     (p \<noteq> [] \<longrightarrow>
        str_includes t (title_marker_ko @ [0x3A]) = str_includes p (title_marker_ko @ [0x3A]))"
proof (intro exI conjI)
  show "composeRequest img mt p =
          [InlineData (at_index (split img 0x2C) 1) mt, Text (textPrompt p)]"
    by (rule compose_parts)
  show "\<forall>a b. img = a @ 0x2C # b \<and> 0x2C \<notin> set a \<longrightarrow>
          at_index (split img 0x2C) 1 = Some (takeWhile (\<lambda>c. c \<noteq> 0x2C) b)"
    by (auto simp: second_piece)
  show "str_includes (textPrompt p) (reason_marker_ko @ [0x3A])"
    by (rule textPrompt_reason)
  show "p = [] \<longrightarrow> str_includes (textPrompt p) (title_marker_ko @ [0x3A])"
    using textPrompt_title_empty by simp
  show "p \<noteq> [] \<longrightarrow>
        str_includes (textPrompt p) (title_marker_ko @ [0x3A]) =
        str_includes p (title_marker_ko @ [0x3A])"
    using textPrompt_title_iff by simp
qed

text \<open>An instance: a data URI and the prompt \<open>Chef\<close>.\<close>

theorem composeRequest_parts_witness:
  "\<exists>t. composeRequest (asc ''data:image/png;base64,QUJD'') (asc ''image/png'') (asc ''Chef'') =
          [InlineData (Some (asc ''QUJD'')) (asc ''image/png''), Text t] \<and>
        str_includes t (reason_marker_ko @ [0x3A]) \<and>
        \<not> str_includes t (title_marker_ko @ [0x3A])"
proof -
  let ?img = "asc ''data:image/png;base64,QUJD''"
  have i: "?img = asc ''data:image/png;base64'' @ 0x2C # asc ''QUJD'' \<and>
           0x2C \<notin> set (asc ''data:image/png;base64'')"
    by (simp add: asc_def)
  have q: "takeWhile (\<lambda>c. c \<noteq> 0x2C) (asc ''QUJD'') = asc ''QUJD''"
    by (simp add: asc_def)
  have p: "asc ''Chef'' \<noteq> []" "\<not> str_includes (asc ''Chef'') (title_marker_ko @ [0x3A])"
    by (simp_all add: asc_def title_marker_ko_def)
  from composeRequest_parts [of ?img "asc ''image/png''" "asc ''Chef''"] i q p
  show ?thesis by metis
qed

text \<open>
  A prompt is supplied and the instruction has the title marker all the same: the
  prompt is the Korean title marker itself, which the template repeats.
\<close>

theorem composeRequest_parts_counterexample:
  "title_marker_ko @ [0x3A] \<noteq> [] \<and>
   composeRequest (asc ''data:image/png;base64,QUJD'') (asc ''image/png'')
       (title_marker_ko @ [0x3A]) =
     [InlineData (Some (asc ''QUJD'')) (asc ''image/png''),
      Text (textPrompt (title_marker_ko @ [0x3A]))] \<and>
   str_includes (textPrompt (title_marker_ko @ [0x3A])) (title_marker_ko @ [0x3A])"
proof -
  have ne: "title_marker_ko @ [0x3A] \<noteq> []" by simp
  have "asc ''data:image/png;base64,QUJD'' = asc ''data:image/png;base64'' @ 0x2C # asc ''QUJD''"
    "0x2C \<notin> set (asc ''data:image/png;base64'')"
    "takeWhile (\<lambda>c. c \<noteq> 0x2C) (asc ''QUJD'') = asc ''QUJD''"
    by (simp_all add: asc_def)
  then have d: "at_index (split (asc ''data:image/png;base64,QUJD'') 0x2C) 1 = Some (asc ''QUJD'')"
    using second_piece [of "0x2C" "asc ''data:image/png;base64''" "asc ''QUJD''"] by simp
  have "str_includes (title_marker_ko @ [0x3A]) (title_marker_ko @ [0x3A])"
    by (rule str_includes_prefix) (use is_prefix_append [of "title_marker_ko @ [0x3A]" "[]"] in simp)
  then have "str_includes (textPrompt (title_marker_ko @ [0x3A])) (title_marker_ko @ [0x3A])"
    using textPrompt_title_iff [OF ne] by simp
  with ne d show ?thesis by (simp add: compose_parts)
qed

text \<open>
  C10. The data of the image part is the second piece of the image text split at its
  commas: absent when the text has no comma (nothing is raised), the text between the
  first and the second comma otherwise, whatever follows the second comma.
\<close>

theorem composeRequest_data:
  "(0x2C \<notin> set img
      \<longrightarrow> composeRequest img mt p = [InlineData None mt, Text (textPrompt p)]) \<and>
   (0x2C \<notin> set a
      \<longrightarrow> composeRequest (a @ 0x2C # b) mt p =
            [InlineData (Some (takeWhile (\<lambda>c. c \<noteq> 0x2C) b)) mt, Text (textPrompt p)]) \<and>
   (0x2C \<notin> set a \<and> 0x2C \<notin> set b
      \<longrightarrow> composeRequest (a @ 0x2C # b @ 0x2C # rest) mt p =
            [InlineData (Some b) mt, Text (textPrompt p)])"
proof -
  have "takeWhile (\<lambda>c. c \<noteq> 0x2C) (b @ 0x2C # rest) = b" if "0x2C \<notin> set b"
    using that by (induction b) auto
  then show ?thesis
    by (auto simp: compose_parts second_piece second_piece_none)
qed

text \<open>Two instances: a text without a comma, and a text with four commas.\<close>

theorem composeRequest_data_witness:
  "composeRequest (asc ''no comma here'') (asc ''image/png'') [] =
     [InlineData None (asc ''image/png''), Text (textPrompt [])] \<and>
   composeRequest (asc ''data:image/png;base64,QUJD,tail,more'') (asc ''image/png'') [] =
     [InlineData (Some (asc ''QUJD'')) (asc ''image/png''), Text (textPrompt [])]"
proof -
  have 1: "0x2C \<notin> set (asc ''no comma here'')"
    by (simp add: asc_def)
  have 2: "0x2C \<notin> set (asc ''data:image/png;base64'') \<and> 0x2C \<notin> set (asc ''QUJD'')"
    by (simp add: asc_def)
  have 3: "asc ''data:image/png;base64,QUJD,tail,more'' =
             asc ''data:image/png;base64'' @ 0x2C # asc ''QUJD'' @ 0x2C # asc ''tail,more''"
    by (simp add: asc_def)
  from composeRequest_data [of "asc ''no comma here''" "asc ''image/png''" "[]"
      "asc ''data:image/png;base64''" "asc ''QUJD''" "asc ''tail,more''"] 1 2
  show ?thesis by (simp only: 3 simp_thms)
qed

text \<open>
  C9. The empty prompt is handled as no prompt: the request carries the template
  without a prompt, which has both markers, and \<open>parseAnalysisText\<close> returns for the
  empty prompt what it returns for no prompt, the title read from the title line or
  the fallback.
\<close>

theorem empty_prompt_is_no_prompt:
  "composeRequest img mt [] =
     [InlineData (at_index (split img 0x2C) 1) mt, Text no_prompt_template] \<and>
   str_includes no_prompt_template (title_marker_ko @ [0x3A]) \<and>
   str_includes no_prompt_template (reason_marker_ko @ [0x3A]) \<and>
   parseAnalysisText text (Some []) = parseAnalysisText text None \<and>
   parseAnalysisText text (Some []) =
     Inr \<lparr>a_title =
            (case title_scan text of
               None \<Rightarrow> fallback_title
             | Some (pre, mk, ws, cap, post) \<Rightarrow> trim cap),
          a_description =
            (case after_first_marker reason_markers text of
               Some r \<Rightarrow> trim r
             | None \<Rightarrow>
                 (case title_scan text of
                    None \<Rightarrow> text
                  | Some (pre, mk, ws, cap, post) \<Rightarrow> trim (pre @ post)))\<rparr>"
proof -
  have t: "textPrompt [] = no_prompt_template"
    by (simp add: textPrompt_def)
  have f: "\<not> truthy (Some [])" "\<not> truthy None"
    by (simp_all add: truthy_def)
  show ?thesis
    using textPrompt_title_empty textPrompt_reason [of "[]"]
      parse_without_prompt [OF f(1), of "text"] parse_without_prompt [OF f(2), of "text"]
    by (simp add: compose_parts t)
qed

text \<open>An instance with a title line and a reason, in English.\<close>

theorem empty_prompt_is_no_prompt_witness:
  "composeRequest (asc ''data:image/png;base64,QUJD'') (asc ''image/png'') [] =
     [InlineData (Some (asc ''QUJD'')) (asc ''image/png''), Text no_prompt_template] \<and>
   parseAnalysisText (asc ''Job title: Chef'' @ [LF] @ asc ''Reason: hat'') (Some []) =
     Inr \<lparr>a_title = asc ''Chef'', a_description = asc ''hat''\<rparr> \<and>
   parseAnalysisText (asc ''Job title: Chef'' @ [LF] @ asc ''Reason: hat'') None =
     Inr \<lparr>a_title = asc ''Chef'', a_description = asc ''hat''\<rparr>"
proof -
  let ?img = "asc ''data:image/png;base64,QUJD''"
  let ?t = "asc ''Job title: Chef'' @ [LF] @ asc ''Reason: hat''"
  have "?img = asc ''data:image/png;base64'' @ 0x2C # asc ''QUJD''"
    "0x2C \<notin> set (asc ''data:image/png;base64'')"
    "takeWhile (\<lambda>c. c \<noteq> 0x2C) (asc ''QUJD'') = asc ''QUJD''"
    by (simp_all add: asc_def)
  then have d: "at_index (split ?img 0x2C) 1 = Some (asc ''QUJD'')"
    using second_piece [of "0x2C" "asc ''data:image/png;base64''" "asc ''QUJD''"] by simp
  have a1: "(case title_scan ?t of None \<Rightarrow> fallback_title
             | Some (pre, mk, ws, cap, post) \<Rightarrow> trim cap) = asc ''Chef''"
    by code_simp
  have a2: "(case after_first_marker reason_markers ?t of Some r \<Rightarrow> trim r
             | None \<Rightarrow> (case title_scan ?t of None \<Rightarrow> ?t
                 | Some (pre, mk, ws, cap, post) \<Rightarrow> trim (pre @ post))) = asc ''hat''"
    by code_simp
  from empty_prompt_is_no_prompt [of ?img "asc ''image/png''" ?t]
  have "composeRequest ?img (asc ''image/png'') [] =
          [InlineData (at_index (split ?img 0x2C) 1) (asc ''image/png''), Text no_prompt_template]"
    and "parseAnalysisText ?t (Some []) = parseAnalysisText ?t None"
    and "parseAnalysisText ?t (Some []) =
     Inr \<lparr>a_title =
            (case title_scan ?t of
               None \<Rightarrow> fallback_title
             | Some (pre, mk, ws, cap, post) \<Rightarrow> trim cap),
          a_description =
            (case after_first_marker reason_markers ?t of
               Some r \<Rightarrow> trim r
             | None \<Rightarrow>
                 (case title_scan ?t of
                    None \<Rightarrow> ?t
                  | Some (pre, mk, ws, cap, post) \<Rightarrow> trim (pre @ post)))\<rparr>"
    by blast+
  then show ?thesis
    by (simp only: d a1 a2 simp_thms)
qed

section \<open>From the request to the result\<close>

text \<open>
  C7. The request for the prompt \<open>Chef\<close> carries the template for a prompt, which asks
  for the reason marker; a response with one image part and one text part whose text is
  the Korean reason marker followed by \<open>" Added a hat."\<close> is read, with the same prompt,
  as the title \<open>Chef\<close> and the description \<open>Added a hat.\<close>
\<close>

theorem round_trip_chef:
  "composeRequest img mt (asc ''Chef'') =
     [InlineData (at_index (split img 0x2C) 1) mt, Text (prompt_template (asc ''Chef''))] \<and>
   str_includes (prompt_template (asc ''Chef'')) (reason_marker_ko @ [0x3A]) \<and>
   interpret_response
     \<lparr>candidates = Some [\<lparr>content = Some \<lparr>parts = Some
        [\<lparr>inlineData = Some b, part_text = None\<rparr>,
         \<lparr>inlineData = None, part_text = Some (reason_marker_ko @ asc '': Added a hat.'')\<rparr>]\<rparr>,
        finishReason = fr, safetyRatings = sr\<rparr>],
      promptFeedback = pf\<rparr>
     (asc ''Chef'') =
     Inr \<lparr>image = data_uri b, title = asc ''Chef'', description = asc ''Added a hat.''\<rparr>"
proof -
  let ?t = "reason_marker_ko @ asc '': Added a hat.''"
  let ?c = "\<lparr>content = Some \<lparr>parts = Some
        [\<lparr>inlineData = Some b, part_text = None\<rparr>,
         \<lparr>inlineData = None, part_text = Some ?t\<rparr>]\<rparr>,
        finishReason = fr, safetyRatings = sr\<rparr>"
  have ne: "asc ''Chef'' \<noteq> []" by (simp add: asc_def)
  then have tp: "textPrompt (asc ''Chef'') = prompt_template (asc ''Chef'')"
    by (simp add: textPrompt_def)
  have p: "parseAnalysisText ?t (Some (asc ''Chef'')) =
             Inr \<lparr>a_title = asc ''Chef'', a_description = asc ''Added a hat.''\<rparr>"
    by code_simp
  have "?t \<noteq> []" by (simp add: reason_marker_ko_def)
  then have ex: "extract_parts ?c = (Some (data_uri b), Some ?t)"
    by (simp add: extract_parts_def truthy_def)
  have "interpret_response \<lparr>candidates = Some [?c], promptFeedback = pf\<rparr> (asc ''Chef'') =
     Inr \<lparr>image = data_uri b, title = asc ''Chef'', description = asc ''Added a hat.''\<rparr>"
    using interpret_first_candidate [of "\<lparr>candidates = Some [?c], promptFeedback = pf\<rparr>" ?c "[]",
        OF _ ex, of "asc ''Chef''"] p data_uri_truthy [of b] \<open>?t \<noteq> []\<close>
    by (simp add: truthy_def)
  with textPrompt_reason [of "asc ''Chef''"] show ?thesis
    by (simp add: compose_parts tp)
qed

text \<open>An instance with a concrete image.\<close>

theorem round_trip_chef_witness:
  "interpret_response
     \<lparr>candidates = Some [\<lparr>content = Some \<lparr>parts = Some
        [\<lparr>inlineData = Some \<lparr>data = asc ''QUJD'', mimeType = asc ''image/png''\<rparr>, part_text = None\<rparr>,
         \<lparr>inlineData = None, part_text = Some (reason_marker_ko @ asc '': Added a hat.'')\<rparr>]\<rparr>,
        finishReason = Some (asc ''STOP''), safetyRatings = None\<rparr>],
      promptFeedback = None\<rparr>
     (asc ''Chef'') =
     Inr \<lparr>image = asc ''data:image/png;base64,QUJD'', title = asc ''Chef'',
          description = asc ''Added a hat.''\<rparr>"
proof -
  have u: "data_uri \<lparr>data = asc ''QUJD'', mimeType = asc ''image/png''\<rparr> =
             asc ''data:image/png;base64,QUJD''"
    by (simp add: data_uri_def asc_def)
  from round_trip_chef [of "[]" "[]" "\<lparr>data = asc ''QUJD'', mimeType = asc ''image/png''\<rparr>"
      "Some (asc ''STOP'')" None None]
  show ?thesis by (simp only: u)
qed

end
